theory Spec2Isabelle
  imports Complex_Main "HOL-Library.Word"
begin

type_synonym short = "16 word"
type_synonym 'a mem = "int \<Rightarrow> 'a"

record HashTableGPU =
  capacity :: int
  values_mem :: "real mem"
  keys :: "short mem"
  entries :: "int mem"

definition modHash :: "int \<Rightarrow> 32 word \<Rightarrow> int" where
  "modHash cap n = sint (n mod (word_of_int (2 * cap) :: 32 word))"

definition hash :: "nat \<Rightarrow> short list \<Rightarrow> 32 word" where
  "hash pd key = foldl (\<lambda>k i. (k + scast (key ! i)) * 2531011) 0 [0..<pd]"

definition spec_hash :: "nat \<Rightarrow> short list \<Rightarrow> 32 word" where
  "spec_hash pd key = foldl (\<lambda>k i. k * 2531011 + scast (key ! i)) 0 [0..<pd]"

definition key_match :: "nat \<Rightarrow> short mem \<Rightarrow> int \<Rightarrow> short list \<Rightarrow> bool" where
  "key_match pd ks c key = list_all (\<lambda>i. ks (c * int pd + int i) = key ! i) [0..<pd]"

definition next_bucket :: "int \<Rightarrow> int \<Rightarrow> int" where
  "next_bucket cap h = (if h + 1 = cap * 2 then 0 else h + 1)"

definition write_key :: "nat \<Rightarrow> short mem \<Rightarrow> int \<Rightarrow> short list \<Rightarrow> short mem" where
  "write_key pd ks slot key = foldl (\<lambda>m i. m(slot * int pd + int i := key ! i)) ks [0..<pd]"

partial_function (option) insert_loop ::
  "nat \<Rightarrow> HashTableGPU \<Rightarrow> short list \<Rightarrow> int \<Rightarrow> int \<Rightarrow> (HashTableGPU \<times> int) option" where
  "insert_loop pd t key slot h =
     (if entries t h = -2 then insert_loop pd t key slot (next_bucket (capacity t) h)
      else if entries t h = -1 then
        Some (t\<lparr>keys := write_key pd (keys t) slot key, entries := (entries t)(h := slot)\<rparr>, h)
      else if key_match pd (keys t) (entries t h) key then Some (t, h)
      else insert_loop pd t key slot (next_bucket (capacity t) h))"

definition insert_ht :: "nat \<Rightarrow> HashTableGPU \<Rightarrow> short list \<Rightarrow> int \<Rightarrow> (HashTableGPU \<times> int) option" where
  "insert_ht pd t key slot = insert_loop pd t key slot (modHash (capacity t) (hash pd key))"

partial_function (option) retrieve_loop ::
  "nat \<Rightarrow> HashTableGPU \<Rightarrow> short list \<Rightarrow> int \<Rightarrow> int option" where
  "retrieve_loop pd t key h =
     (if entries t h = -1 then Some (-1)
      else if key_match pd (keys t) (entries t h) key then Some (entries t h)
      else retrieve_loop pd t key (next_bucket (capacity t) h))"

definition retrieve :: "nat \<Rightarrow> HashTableGPU \<Rightarrow> short list \<Rightarrow> int option" where
  "retrieve pd t key = retrieve_loop pd t key (modHash (capacity t) (hash pd key))"

definition newHashTable :: "int \<Rightarrow> HashTableGPU" where
  "newHashTable cap = \<lparr>capacity = cap, values_mem = (\<lambda>_. 0), keys = (\<lambda>_. 0), entries = (\<lambda>_. -1)\<rparr>"

definition probe :: "int \<Rightarrow> int \<Rightarrow> nat \<Rightarrow> int" where
  "probe cap h k = (next_bucket cap ^^ k) h"

definition in_table :: "HashTableGPU \<Rightarrow> int \<Rightarrow> bool" where
  "in_table t h \<longleftrightarrow> 0 \<le> h \<and> h < 2 * capacity t"

definition retrieve_stops :: "nat \<Rightarrow> HashTableGPU \<Rightarrow> short list \<Rightarrow> int \<Rightarrow> bool" where
  "retrieve_stops pd t key h \<longleftrightarrow> entries t h = -1 \<or> key_match pd (keys t) (entries t h) key"

definition insert_stops :: "nat \<Rightarrow> HashTableGPU \<Rightarrow> short list \<Rightarrow> int \<Rightarrow> bool" where
  "insert_stops pd t key h \<longleftrightarrow>
     entries t h \<noteq> -2 \<and> (entries t h = -1 \<or> key_match pd (keys t) (entries t h) key)"


definition table_one_key :: HashTableGPU where
  "table_one_key = \<lparr>capacity = 2, values_mem = (\<lambda>_. 0), keys = (\<lambda>_. 0)(0 := 1),
     entries = (\<lambda>_. -1)(3 := 0)\<rparr>"

definition table_half :: HashTableGPU where
  "table_half = \<lparr>capacity = 1, values_mem = (\<lambda>_. 0), keys = (\<lambda>_. 0)(0 := 2),
     entries = (\<lambda>_. -1)(0 := 0)\<rparr>"

definition table_full :: HashTableGPU where
  "table_full = \<lparr>capacity = 1, values_mem = (\<lambda>_. 0), keys = (\<lambda>_. 0)(0 := 1),
     entries = ((\<lambda>_. -1)(0 := 0))(1 := 0)\<rparr>"


record MatrixEntry =
  index :: int
  weight :: real

text \<open>C++ integer division truncates towards zero.\<close>

definition tdiv :: "int \<Rightarrow> int \<Rightarrow> int" where
  "tdiv a b = sgn a * sgn b * (\<bar>a\<bar> div \<bar>b\<bar>)"

text \<open>Conversion of a floating-point value to \<open>short\<close>: the fraction is dropped.\<close>

definition short_of_real :: "real \<Rightarrow> short" where
  "short_of_real x = word_of_int (if x < 0 then \<lceil>x\<rceil> else \<lfloor>x\<rfloor>)"

fun elevate_loop :: "(nat \<Rightarrow> real) \<Rightarrow> (nat \<Rightarrow> real) \<Rightarrow> nat \<Rightarrow> real \<times> (nat \<Rightarrow> real) \<Rightarrow> real \<times> (nat \<Rightarrow> real)" where
  "elevate_loop position scaleFactor 0 (sm, elevated) = (sm, elevated)"
| "elevate_loop position scaleFactor (Suc j) (sm, elevated) =
     elevate_loop position scaleFactor j
       (sm + position j * scaleFactor j,
        elevated(Suc j := sm - real (Suc j) * (position j * scaleFactor j)))"

definition elevate :: "nat \<Rightarrow> (nat \<Rightarrow> real) \<Rightarrow> (nat \<Rightarrow> real) \<Rightarrow> nat \<Rightarrow> real" where
  "elevate pd position scaleFactor =
     (case elevate_loop position scaleFactor pd (0, \<lambda>_. 0) of (sm, elevated) \<Rightarrow> elevated(0 := sm))"

definition round_up :: "nat \<Rightarrow> real \<Rightarrow> real" where
  "round_up pd e = real_of_int \<lceil>e * (1 / real (pd + 1))\<rceil> * real (pd + 1)"

definition round_down :: "nat \<Rightarrow> real \<Rightarrow> real" where
  "round_down pd e = real_of_int \<lfloor>e * (1 / real (pd + 1))\<rfloor> * real (pd + 1)"

definition round_coord :: "nat \<Rightarrow> real \<Rightarrow> int" where
  "round_coord pd e =
     (if round_up pd e - e < e - round_down pd e
      then sint (short_of_real (round_up pd e))
      else sint (short_of_real (round_down pd e)))"

definition round_step :: "nat \<Rightarrow> (nat \<Rightarrow> real) \<Rightarrow> (nat \<Rightarrow> int) \<times> short \<Rightarrow> nat \<Rightarrow> (nat \<Rightarrow> int) \<times> short" where
  "round_step pd elevated st i =
     (case st of (rem0, sumv) \<Rightarrow>
        (rem0(i := round_coord pd (elevated i)), sumv + word_of_int (round_coord pd (elevated i))))"

definition round_all :: "nat \<Rightarrow> (nat \<Rightarrow> real) \<Rightarrow> (nat \<Rightarrow> int) \<times> short" where
  "round_all pd elevated =
     (case foldl (round_step pd elevated) (\<lambda>_. 0, 0) [0..<Suc pd] of
        (rem0, sumv) \<Rightarrow> (rem0, word_of_int (tdiv (sint sumv) (int pd + 1))))"

definition rank_init :: "nat \<Rightarrow> (nat \<Rightarrow> real) \<Rightarrow> (nat \<Rightarrow> int) \<Rightarrow> nat \<Rightarrow> int" where
  "rank_init pd elevated rem0 =
     foldl (\<lambda>rank i. rank(i := int (length (filter
        (\<lambda>j. elevated i - real_of_int (rem0 i) < elevated j - real_of_int (rem0 j)
           \<or> (elevated i - real_of_int (rem0 i) = elevated j - real_of_int (rem0 j) \<and> i > j))
        [0..<Suc pd])))) (\<lambda>_. 0) [0..<Suc pd]"

definition fix_step :: "nat \<Rightarrow> int \<Rightarrow> (nat \<Rightarrow> int) \<times> (nat \<Rightarrow> int) \<Rightarrow> nat \<Rightarrow> (nat \<Rightarrow> int) \<times> (nat \<Rightarrow> int)" where
  "fix_step pd sumv st i =
     (case st of (rem0, rank) \<Rightarrow>
        if sumv > 0 then
          (if rank i \<ge> int pd + 1 - sumv
           then (rem0(i := rem0 i - (int pd + 1)), rank(i := rank i + (sumv - (int pd + 1))))
           else (rem0, rank(i := rank i + sumv)))
        else if sumv < 0 then
          (if rank i < - sumv
           then (rem0(i := rem0 i + (int pd + 1)), rank(i := rank i + ((int pd + 1) + sumv)))
           else (rem0, rank(i := rank i + sumv)))
        else (rem0, rank))"

definition fix_sum :: "nat \<Rightarrow> int \<Rightarrow> (nat \<Rightarrow> int) \<times> (nat \<Rightarrow> int) \<Rightarrow> (nat \<Rightarrow> int) \<times> (nat \<Rightarrow> int)" where
  "fix_sum pd sumv st = foldl (fix_step pd sumv) st [0..<Suc pd]"

definition bary_step :: "nat \<Rightarrow> (nat \<Rightarrow> real) \<Rightarrow> (nat \<Rightarrow> int) \<Rightarrow> (nat \<Rightarrow> int) \<Rightarrow> real mem \<Rightarrow> nat \<Rightarrow> real mem" where
  "bary_step pd elevated rem0 rank b i =
     (let delta = (elevated i - real_of_int (rem0 i)) * (1 / real (pd + 1));
          b1 = b(int pd - rank i := b (int pd - rank i) + delta)
      in b1(int pd + 1 - rank i := b1 (int pd + 1 - rank i) - delta))"

definition barycentric :: "nat \<Rightarrow> (nat \<Rightarrow> real) \<Rightarrow> (nat \<Rightarrow> int) \<Rightarrow> (nat \<Rightarrow> int) \<Rightarrow> real mem" where
  "barycentric pd elevated rem0 rank =
     (let b = foldl (bary_step pd elevated rem0 rank) (\<lambda>_. 0) [0..<Suc pd]
      in b(0 := b 0 + (1 + b (int pd + 1))))"

text \<open>The per-sample geometry of createLattice (lines 158-254): the final rem0, rank and weights.\<close>

definition lattice_point :: "nat \<Rightarrow> (nat \<Rightarrow> real) \<Rightarrow> (nat \<Rightarrow> real) \<Rightarrow> (nat \<Rightarrow> int) \<times> (nat \<Rightarrow> int) \<times> real mem" where
  "lattice_point pd position scaleFactor =
     (let elevated = elevate pd position scaleFactor;
          (rem0, sumv) = round_all pd elevated;
          rank = rank_init pd elevated rem0;
          (rem0', rank') = fix_sum pd (sint sumv) (rem0, rank)
      in (rem0', rank', barycentric pd elevated rem0' rank'))"

definition unit_vector :: "nat \<Rightarrow> real" where
  "unit_vector = (\<lambda>_. 1)"

definition ramp_vector :: "nat \<Rightarrow> real" where
  "ramp_vector = (\<lambda>i. real i + 1)"

text \<open>The value chosen by the comparison, before the conversion to \<open>short\<close>.\<close>

definition nearest :: "nat \<Rightarrow> real \<Rightarrow> real" where
  "nearest pd e = (if round_up pd e - e < e - round_down pd e then round_up pd e else round_down pd e)"


datatype error = DivisionByZero

definition BLOCK_SIZE :: nat where
  "BLOCK_SIZE = 256"

fun fold_option :: "('s \<Rightarrow> 'a \<Rightarrow> 's option) \<Rightarrow> 'a list \<Rightarrow> 's \<Rightarrow> 's option" where
  "fold_option f [] s = Some s"
| "fold_option f (x # xs) s = (case f s x of None \<Rightarrow> None | Some s' \<Rightarrow> fold_option f xs s')"

subsection \<open>createLattice, lines 257-275: the keys of the simplex corners\<close>





subsection \<open>cleanHashTable, lines 278-299\<close>

definition slot_key :: "nat \<Rightarrow> HashTableGPU \<Rightarrow> int \<Rightarrow> short list" where
  "slot_key pd t e = map (\<lambda>i. keys t (e * int pd + int i)) [0..<pd]"

definition cleanHashTable_thread :: "nat \<Rightarrow> HashTableGPU \<Rightarrow> nat \<Rightarrow> HashTableGPU option" where
  "cleanHashTable_thread pd t idx =
     (if entries t (int idx) \<ge> 0
      then (case retrieve pd t (slot_key pd t (entries t (int idx))) of
              None \<Rightarrow> None
            | Some r \<Rightarrow> Some (t\<lparr>entries := (entries t)(int idx := r)\<rparr>))
      else Some t)"

definition cleanHashTable :: "nat \<Rightarrow> nat \<Rightarrow> HashTableGPU \<Rightarrow> HashTableGPU option" where
  "cleanHashTable pd n t = fold_option (cleanHashTable_thread pd) [0..<n] t"

subsection \<open>splatCache, lines 301-361\<close>






subsection \<open>blur, lines 363-409\<close>

definition neighbour_plus :: "nat \<Rightarrow> nat \<Rightarrow> short list \<Rightarrow> short list" where
  "neighbour_plus pd color myKey =
     (let np = map (\<lambda>k. k + 1) myKey @ [0] in np[color := np ! color - word_of_int (int pd + 1)])"

definition neighbour_minus :: "nat \<Rightarrow> nat \<Rightarrow> short list \<Rightarrow> short list" where
  "neighbour_minus pd color myKey =
     (let nm = map (\<lambda>k. k - 1) myKey @ [0] in nm[color := nm ! color + word_of_int (int pd + 1)])"

definition neighbour_value :: "nat \<Rightarrow> HashTableGPU \<Rightarrow> int \<Rightarrow> nat \<Rightarrow> real" where
  "neighbour_value vd table off i = (if off \<ge> 0 then values_mem table (int vd * off + int i) else 0)"

definition blur_thread ::
  "nat \<Rightarrow> nat \<Rightarrow> nat \<Rightarrow> HashTableGPU \<Rightarrow> MatrixEntry mem \<Rightarrow> real mem \<Rightarrow> nat \<Rightarrow> real mem option" where
  "blur_thread pd vd color table matrix newValues idx =
     (if index (matrix (int idx)) \<noteq> int idx then Some newValues
      else
        (case retrieve pd table (neighbour_plus pd color (slot_key pd table (int idx))) of
           None \<Rightarrow> None
         | Some offNp \<Rightarrow>
             (case retrieve pd table (neighbour_minus pd color (slot_key pd table (int idx))) of
                None \<Rightarrow> None
              | Some offNm \<Rightarrow>
                  Some (foldl (\<lambda>out i. out(int vd * int idx + int i :=
                                  0.25 * neighbour_value vd table offNp i
                                  + 0.5 * values_mem table (int vd * int idx + int i)
                                  + 0.25 * neighbour_value vd table offNm i))
                          newValues [0..<vd]))))"

definition blur ::
  "nat \<Rightarrow> nat \<Rightarrow> nat \<Rightarrow> nat \<Rightarrow> HashTableGPU \<Rightarrow> MatrixEntry mem \<Rightarrow> real mem \<Rightarrow> real mem option" where
  "blur pd vd n color table matrix newValues =
     fold_option (blur_thread pd vd color table matrix) [0..<n] newValues"

subsection \<open>slice, lines 411-434\<close>

definition slice_accumulate ::
  "nat \<Rightarrow> nat \<Rightarrow> MatrixEntry mem \<Rightarrow> HashTableGPU \<Rightarrow> nat \<Rightarrow> (nat \<Rightarrow> real) \<times> real" where
  "slice_accumulate pd vd matrix table idx =
     foldl (\<lambda>acc i. case acc of (value, wgt) \<Rightarrow>
              (let r = matrix (int (idx * (pd + 1) + i)) in
               (foldl (\<lambda>v j. v(j := v j + weight r * values_mem table (index r * int vd + int j)))
                  value [0..<vd - 1],
                wgt + weight r * values_mem table (index r * int vd + int (vd - 1)))))
       (\<lambda>_. 0, 0) [0..<pd + 1]"

text \<open>
  The output buffer holds, per cell, a number or the mark of a quotient that does not
  exist. The kernel computes \<open>1.0f / weight\<close> once per sample without a test
  (line 430); \<open>reciprocal\<close> is that division with the zero divisor made visible. The
  threads are independent: a sample with zero mass marks its own cells and every other
  sample is still written.
\<close>

definition reciprocal :: "real \<Rightarrow> error + real" where
  "reciprocal w = (if w = 0 then Inl DivisionByZero else Inr (1 / w))"

definition slice_thread ::
  "nat \<Rightarrow> nat \<Rightarrow> MatrixEntry mem \<Rightarrow> HashTableGPU \<Rightarrow> (error + real) mem \<Rightarrow> nat \<Rightarrow> (error + real) mem" where
  "slice_thread pd vd matrix table output idx =
     (case slice_accumulate pd vd matrix table idx of (value, wgt) \<Rightarrow>
        foldl (\<lambda>out j. out(int (idx * (vd - 1) + j) :=
                  (case reciprocal wgt of Inl e \<Rightarrow> Inl e | Inr w \<Rightarrow> Inr (value j * w))))
          output [0..<vd - 1])"

definition slice ::
  "nat \<Rightarrow> nat \<Rightarrow> nat \<Rightarrow> MatrixEntry mem \<Rightarrow> HashTableGPU \<Rightarrow> (error + real) mem \<Rightarrow> (error + real) mem" where
  "slice pd vd n matrix table output = foldl (slice_thread pd vd matrix table) output [0..<n]"

subsection \<open>class PermutohedralLatticeGPU, lines 437-554\<close>

record PermutohedralLatticeGPU =
  lattice_n :: nat
  lattice_canonical :: "int mem"
  lattice_scaleFactor :: "real mem"
  lattice_matrix :: "MatrixEntry mem"
  lattice_hashTable :: HashTableGPU
  lattice_newValues :: "real mem"

definition init_canonical :: "nat \<Rightarrow> int mem" where
  "init_canonical pd =
     foldl (\<lambda>c i.
        foldl (\<lambda>c j. c(int (i * (pd + 1) + j) := int i - (int pd + 1)))
          (foldl (\<lambda>c j. c(int (i * (pd + 1) + j) := int i)) c [0..<pd - i + 1])
          [pd - i + 1..<pd + 1])
       (\<lambda>_. 0) [0..<pd + 1]"

definition init_scaleFactor :: "nat \<Rightarrow> real mem" where
  "init_scaleFactor pd =
     foldl (\<lambda>s i. s(int i := 1 / sqrt (real ((i + 1) * (i + 2))) * (real (pd + 1) * sqrt (2 / 3))))
       (\<lambda>_. 0) [0..<pd]"

definition new_PermutohedralLatticeGPU :: "nat \<Rightarrow> nat \<Rightarrow> string list \<times> PermutohedralLatticeGPU" where
  "new_PermutohedralLatticeGPU pd n =
     ((if n \<ge> 65535 * BLOCK_SIZE
       then [''Not enough GPU memory (on x axis, you can change the code to use other grid dims)'']
       else []),
      \<lparr>lattice_n = n, lattice_canonical = init_canonical pd,
        lattice_scaleFactor = init_scaleFactor pd,
        lattice_matrix = (\<lambda>_. \<lparr>index = 0, weight = 0\<rparr>),
        lattice_hashTable = newHashTable (int (n * (pd + 1))),
        lattice_newValues = (\<lambda>_. 0)\<rparr>)"

definition blur_round ::
  "nat \<Rightarrow> nat \<Rightarrow> nat \<Rightarrow> MatrixEntry mem \<Rightarrow> HashTableGPU \<times> real mem \<Rightarrow> nat \<Rightarrow> (HashTableGPU \<times> real mem) option" where
  "blur_round pd vd n m st remainder =
     (case st of (table, newVals) \<Rightarrow>
        (case blur pd vd (n * (pd + 1)) remainder table m newVals of
           None \<Rightarrow> None
         | Some out \<Rightarrow> Some (table\<lparr>values_mem := out\<rparr>, values_mem table)))"



definition const_mem :: "real \<Rightarrow> real mem" where
  "const_mem c = (\<lambda>_. c)"

definition zero_matrix :: "MatrixEntry mem" where
  "zero_matrix = (\<lambda>_. \<lparr>index = 0, weight = 0\<rparr>)"

text \<open>
  Two samples on two vertices (\<open>pd = 1\<close>, \<open>vd = 2\<close>): each sample puts the weights
  \<open>1/2 + 1/2\<close> on one vertex; vertex 0 carries no mass, vertex 1 carries the value 6
  with mass 2.
\<close>

definition matrix_pair :: "MatrixEntry mem" where
  "matrix_pair = (\<lambda>q. \<lparr>index = (if q < 2 then 0 else 1), weight = 1 / 2\<rparr>)"

definition table_pair :: HashTableGPU where
  "table_pair = \<lparr>capacity = 2, values_mem = ((\<lambda>_. 0)(2 := 6))(3 := 2), keys = (\<lambda>_. 0),
     entries = (\<lambda>_. -1)\<rparr>"

text \<open>The sums that the slice loop accumulates for one sample.\<close>

definition slice_mass :: "nat \<Rightarrow> nat \<Rightarrow> MatrixEntry mem \<Rightarrow> HashTableGPU \<Rightarrow> nat \<Rightarrow> real" where
  "slice_mass pd vd m t idx =
     (\<Sum>i<pd + 1. weight (m (int (idx * (pd + 1) + i)))
        * values_mem t (index (m (int (idx * (pd + 1) + i))) * int vd + int (vd - 1)))"

definition slice_value :: "nat \<Rightarrow> nat \<Rightarrow> MatrixEntry mem \<Rightarrow> HashTableGPU \<Rightarrow> nat \<Rightarrow> nat \<Rightarrow> real" where
  "slice_value pd vd m t idx j =
     (\<Sum>i<pd + 1. weight (m (int (idx * (pd + 1) + i)))
        * values_mem t (index (m (int (idx * (pd + 1) + i))) * int vd + int j))"

text \<open>The value that one blur thread writes to channel \<open>i\<close> of its vertex.\<close>

definition stencil :: "nat \<Rightarrow> HashTableGPU \<Rightarrow> int \<Rightarrow> int \<Rightarrow> nat \<Rightarrow> nat \<Rightarrow> real" where
  "stencil vd table offNp offNm idx i =
     0.25 * neighbour_value vd table offNp i
     + 0.5 * values_mem table (int vd * int idx + int i)
     + 0.25 * neighbour_value vd table offNm i"

definition table_blur :: HashTableGPU where
  "table_blur = \<lparr>capacity = 2, values_mem = (\<lambda>_. 0)(0 := 8), keys = (\<lambda>_. 0)(0 := 1),
     entries = (\<lambda>_. -1)(3 := 0)\<rparr>"

declare insert_loop.simps [code] retrieve_loop.simps [code]

text \<open>The residual of coordinate \<open>i\<close>, and the order in which the rank loop counts.\<close>

definition resid :: "(nat \<Rightarrow> real) \<Rightarrow> (nat \<Rightarrow> int) \<Rightarrow> nat \<Rightarrow> real" where
  "resid elevated rem0 i = elevated i - real_of_int (rem0 i)"

definition fix_rem0 :: "nat \<Rightarrow> int \<Rightarrow> (nat \<Rightarrow> int) \<Rightarrow> (nat \<Rightarrow> int) \<Rightarrow> nat \<Rightarrow> int" where
  "fix_rem0 pd s rem0 rank i =
     (if 0 < s then (if int pd + 1 - s \<le> rank i then rem0 i - (int pd + 1) else rem0 i)
      else if s < 0 then (if rank i < - s then rem0 i + (int pd + 1) else rem0 i)
      else rem0 i)"

definition fix_rank :: "nat \<Rightarrow> int \<Rightarrow> (nat \<Rightarrow> int) \<Rightarrow> nat \<Rightarrow> int" where
  "fix_rank pd s rank i =
     (if 0 < s then (if int pd + 1 - s \<le> rank i then rank i + (s - (int pd + 1)) else rank i + s)
      else if s < 0 then (if rank i < - s then rank i + ((int pd + 1) + s) else rank i + s)
      else rank i)"

text \<open>
  A position is valid when the lattice coordinates it rounds to are representable: both
  neighbouring multiples of every elevated coordinate fit in \<open>short\<close>, and the
  dimension is small enough for the \<open>short\<close> accumulator of the remainders.
\<close>

definition valid_position :: "nat \<Rightarrow> (nat \<Rightarrow> real) \<Rightarrow> (nat \<Rightarrow> real) \<Rightarrow> bool" where
  "valid_position pd position scaleFactor \<longleftrightarrow>
     pd < 255 \<and>
     (\<forall>i\<le>pd. - 32768 \<le> round_down pd (elevate pd position scaleFactor i)
            \<and> round_up pd (elevate pd position scaleFactor i) \<le> 32767)"

definition lattice_rem0 :: "nat \<Rightarrow> (nat \<Rightarrow> real) \<Rightarrow> (nat \<Rightarrow> real) \<Rightarrow> nat \<Rightarrow> int" where
  "lattice_rem0 pd position scaleFactor = fst (lattice_point pd position scaleFactor)"

definition lattice_rank :: "nat \<Rightarrow> (nat \<Rightarrow> real) \<Rightarrow> (nat \<Rightarrow> real) \<Rightarrow> nat \<Rightarrow> int" where
  "lattice_rank pd position scaleFactor = fst (snd (lattice_point pd position scaleFactor))"

definition lattice_weight :: "nat \<Rightarrow> (nat \<Rightarrow> real) \<Rightarrow> (nat \<Rightarrow> real) \<Rightarrow> nat \<Rightarrow> real" where
  "lattice_weight pd position scaleFactor r =
     (case lattice_point pd position scaleFactor of (rem0, rank, bary) \<Rightarrow> bary (int r))"



subsection \<open>Invariants of the pipeline under a constant field\<close>







subsection \<open>insert as its atomic steps, lines 81-113\<close>

text \<open>
  In a racy execution the inserts of several threads interleave between their accesses
  to the shared table. A thread is probing a bucket, has locked a bucket (\<open>-2\<close>, the
  \<open>atomicCAS\<close> of line 87 found \<open>-1\<close>), has written its key to its own slot (lines
  93-95), or has returned a bucket index. One step is one shared access with the local
  work that follows it: the \<open>atomicCAS\<close> on the bucket and the comparison of the
  stored key, the key write, the \<open>atomicExch\<close> that publishes the slot (line 97).
\<close>

datatype insert_pc = Probing int | Locked int | Written int | Returned int

fun insert_step :: "nat \<Rightarrow> short list \<Rightarrow> int \<Rightarrow> HashTableGPU \<times> insert_pc \<Rightarrow> HashTableGPU \<times> insert_pc" where
  "insert_step pd key slot (t, Probing h) =
     (if entries t h = -2 then (t, Probing (next_bucket (capacity t) h))
      else if entries t h = -1 then (t\<lparr>entries := (entries t)(h := -2)\<rparr>, Locked h)
      else if key_match pd (keys t) (entries t h) key then (t, Returned h)
      else (t, Probing (next_bucket (capacity t) h)))"
| "insert_step pd key slot (t, Locked h) = (t\<lparr>keys := write_key pd (keys t) slot key\<rparr>, Written h)"
| "insert_step pd key slot (t, Written h) = (t\<lparr>entries := (entries t)(h := slot)\<rparr>, Returned h)"
| "insert_step pd key slot (t, Returned h) = (t, Returned h)"

text \<open>
  Thread \<open>i\<close> inserts the key \<open>keyf i\<close> with the slot \<open>slotf i\<close>. A schedule is the
  list of the threads in the order in which they take their steps.
\<close>

definition race_step ::
  "nat \<Rightarrow> (nat \<Rightarrow> short list) \<Rightarrow> (nat \<Rightarrow> int) \<Rightarrow> HashTableGPU \<times> (nat \<Rightarrow> insert_pc) \<Rightarrow> nat \<Rightarrow>
     HashTableGPU \<times> (nat \<Rightarrow> insert_pc)" where
  "race_step pd keyf slotf st i =
     (case insert_step pd (keyf i) (slotf i) (fst st, snd st i) of
        (t', pc') \<Rightarrow> (t', (snd st)(i := pc')))"

definition race ::
  "nat \<Rightarrow> (nat \<Rightarrow> short list) \<Rightarrow> (nat \<Rightarrow> int) \<Rightarrow> nat list \<Rightarrow> HashTableGPU \<times> (nat \<Rightarrow> insert_pc) \<Rightarrow>
     HashTableGPU \<times> (nat \<Rightarrow> insert_pc)" where
  "race pd keyf slotf sched st = foldl (race_step pd keyf slotf) st sched"

definition insert_start :: "nat \<Rightarrow> HashTableGPU \<Rightarrow> (nat \<Rightarrow> short list) \<Rightarrow> nat \<Rightarrow> insert_pc" where
  "insert_start pd t keyf i = Probing (modHash (capacity t) (hash pd (keyf i)))"

text \<open>
  A table between two kernels: no bucket is locked, and every occupied bucket is reached
  from the hash of its key through buckets that are not empty. Both the sequential and
  the racy execution of the inserts leave such a table; only the sequential one stores
  every key once.
\<close>

definition nonempty_path :: "HashTableGPU \<Rightarrow> int \<Rightarrow> int \<Rightarrow> bool" where
  "nonempty_path t h0 h \<longleftrightarrow>
     (\<exists>k. probe (capacity t) h0 k = h \<and> (\<forall>j<k. entries t (probe (capacity t) h0 j) \<noteq> - 1))"

definition reachable :: "nat \<Rightarrow> HashTableGPU \<Rightarrow> int \<Rightarrow> bool" where
  "reachable pd t b \<longleftrightarrow>
     nonempty_path t (modHash (capacity t) (hash pd (slot_key pd t (entries t b)))) b"

definition settled :: "nat \<Rightarrow> HashTableGPU \<Rightarrow> bool" where
  "settled pd t \<longleftrightarrow>
     (\<forall>b. in_table t b \<longrightarrow> entries t b = - 1 \<or> (0 \<le> entries t b \<and> reachable pd t b))"

text \<open>
  The first bucket at which \<open>retrieve\<close> stops for a key, as an index into the probe
  sequence; and a table that differs from \<open>t\<close> only in which of the slots with the
  same key an occupied bucket holds.
\<close>

definition first_hit :: "nat \<Rightarrow> HashTableGPU \<Rightarrow> short list \<Rightarrow> nat \<Rightarrow> bool" where
  "first_hit pd t key k \<longleftrightarrow>
     retrieve_stops pd t key (probe (capacity t) (modHash (capacity t) (hash pd key)) k)
     \<and> (\<forall>j<k. \<not> retrieve_stops pd t key (probe (capacity t) (modHash (capacity t) (hash pd key)) j))"

definition same_shape :: "nat \<Rightarrow> HashTableGPU \<Rightarrow> HashTableGPU \<Rightarrow> bool" where
  "same_shape pd t u \<longleftrightarrow>
     capacity u = capacity t \<and> keys u = keys t \<and> values_mem u = values_mem t
     \<and> (\<forall>b. in_table t b \<longrightarrow>
           (entries t b = - 1 \<longrightarrow> entries u b = - 1)
           \<and> (0 \<le> entries t b \<longrightarrow>
                0 \<le> entries u b \<and> slot_key pd t (entries u b) = slot_key pd t (entries t b)))"

text \<open>What holds of a running thread, and of the table and all threads, during a race.\<close>

definition unpublished :: "HashTableGPU \<Rightarrow> int \<Rightarrow> bool" where
  "unpublished t s \<longleftrightarrow> (\<forall>b. in_table t b \<longrightarrow> entries t b \<noteq> s)"

definition holds_lock :: "insert_pc \<Rightarrow> int \<Rightarrow> bool" where
  "holds_lock pc b \<longleftrightarrow> pc = Locked b \<or> pc = Written b"

definition thread_ok :: "nat \<Rightarrow> HashTableGPU \<Rightarrow> short list \<Rightarrow> int \<Rightarrow> insert_pc \<Rightarrow> bool" where
  "thread_ok pd t key slot pc =
     (case pc of
        Probing h \<Rightarrow> in_table t h \<and> nonempty_path t (modHash (capacity t) (hash pd key)) h
                     \<and> unpublished t slot
      | Locked h \<Rightarrow> in_table t h \<and> entries t h = - 2
                     \<and> nonempty_path t (modHash (capacity t) (hash pd key)) h \<and> unpublished t slot
      | Written h \<Rightarrow> in_table t h \<and> entries t h = - 2
                     \<and> nonempty_path t (modHash (capacity t) (hash pd key)) h \<and> unpublished t slot
                     \<and> slot_key pd t slot = key
      | Returned h \<Rightarrow> in_table t h \<and> 0 \<le> entries t h \<and> slot_key pd t (entries t h) = key)"

definition race_inv ::
  "nat \<Rightarrow> (nat \<Rightarrow> short list) \<Rightarrow> (nat \<Rightarrow> int) \<Rightarrow> int \<Rightarrow> HashTableGPU \<times> (nat \<Rightarrow> insert_pc) \<Rightarrow> bool" where
  "race_inv pd keyf slotf cap st \<longleftrightarrow>
     capacity (fst st) = cap
     \<and> (\<forall>b. in_table (fst st) b \<longrightarrow>
           entries (fst st) b = - 1
           \<or> (entries (fst st) b = - 2 \<and> (\<exists>i. holds_lock (snd st i) b))
           \<or> (0 \<le> entries (fst st) b \<and> reachable pd (fst st) b))
     \<and> (\<forall>i. thread_ok pd (fst st) (keyf i) (slotf i) (snd st i))
     \<and> (\<forall>i i' b. holds_lock (snd st i) b \<and> holds_lock (snd st i') b \<longrightarrow> i = i')"

text \<open>
  A lost race (capacity 2, both threads insert the key \<open>[1]\<close>, which hashes to bucket
  3): thread 0 locks bucket 3, thread 1 finds it locked, takes bucket 0 and publishes,
  then thread 0 publishes. The key is stored twice, with slot 0 in bucket 3 and slot 1
  in bucket 0.
\<close>

definition race_schedule :: "nat list" where
  "race_schedule = [0, 1, 1, 1, 1, 0, 0]"

definition lost_race :: "HashTableGPU \<times> (nat \<Rightarrow> insert_pc)" where
  "lost_race = race 1 (\<lambda>_. [1]) int race_schedule
     (newHashTable 2, insert_start 1 (newHashTable 2) (\<lambda>_. [1]))"

section \<open>hash\<close>

lemma hash_Suc: "hash (Suc n) key = (hash n key + scast (key ! n)) * 2531011"
  by (simp add: hash_def)

lemma spec_hash_Suc: "spec_hash (Suc n) key = spec_hash n key * 2531011 + scast (key ! n)"
  by (simp add: spec_hash_def)

lemma hash_spec_hash: "hash pd key = spec_hash pd key * 2531011"
proof (induction pd)
  case 0
  show ?case by (simp add: hash_def spec_hash_def)
next
  case (Suc n)
  show ?case unfolding hash_Suc spec_hash_Suc Suc.IH by (simp add: algebra_simps)
qed

lemma modHash_eq:
  assumes "0 < cap" "2 * cap < 2 ^ 31"
  shows "modHash cap n = uint n mod (2 * cap)"
proof -
  define m :: "32 word" where "m = word_of_int (2 * cap)"
  have "uint m = take_bit 32 (2 * cap)"
    unfolding m_def by (simp only: uint_word_of_int_eq) simp
  also have "\<dots> = 2 * cap"
    using assms by (intro take_bit_int_eq_self) simp_all
  finally have m: "uint m = 2 * cap" .
  have u: "uint (n mod m) = uint n mod (2 * cap)"
    by (simp add: uint_mod m)
  have "uint n mod (2 * cap) < 2 * cap"
    using assms by (intro pos_mod_bound) simp
  then have lt: "uint n mod (2 * cap) < 2 ^ 31"
    using assms by linarith
  have "signed_take_bit 31 (uint (n mod m)) = uint (n mod m)"
  proof (rule signed_take_bit_int_eq_self)
    have "- (2 ^ 31) \<le> (0::int)" by simp
    also have "0 \<le> uint (n mod m)" by simp
    finally show "- (2 ^ 31) \<le> uint (n mod m)" .
    show "uint (n mod m) < 2 ^ 31" using lt by (simp only: u)
  qed
  then have "sint (n mod m) = uint (n mod m)"
    by (simp add: sint_uint)
  then show ?thesis unfolding modHash_def m_def[symmetric] by (simp only: u)
qed

lemma probe_0: "probe cap h 0 = h"
  by (simp add: probe_def)

lemma probe_Suc: "probe cap h (Suc k) = probe cap (next_bucket cap h) k"
  by (simp add: probe_def funpow_swap1)

lemma next_bucket_mod:
  assumes "0 \<le> h" "h < 2 * cap"
  shows "next_bucket cap h = (h + 1) mod (2 * cap)"
proof (cases "h + 1 = cap * 2")
  case True
  then show ?thesis by (simp add: next_bucket_def mult.commute)
next
  case False
  with assms have "h + 1 < 2 * cap" by simp
  with assms False show ?thesis by (simp add: next_bucket_def)
qed

lemma probe_mod:
  assumes "0 \<le> h" "h < 2 * cap"
  shows "probe cap h k = (h + int k) mod (2 * cap)"
  using assms
proof (induction k arbitrary: h)
  case 0
  then show ?case by (simp add: probe_0)
next
  case (Suc k)
  have pos: "0 < 2 * cap" using Suc.prems by linarith
  have n: "next_bucket cap h = (h + 1) mod (2 * cap)"
    using Suc.prems by (rule next_bucket_mod)
  have r: "0 \<le> next_bucket cap h" "next_bucket cap h < 2 * cap"
    unfolding n using pos by simp_all
  have "probe cap h (Suc k) = ((h + 1) mod (2 * cap) + int k) mod (2 * cap)"
    unfolding probe_Suc using Suc.IH[OF r] by (simp only: n)
  also have "\<dots> = ((h + 1) + int k) mod (2 * cap)"
    by (rule mod_add_left_eq)
  also have "(h + 1) + int k = h + int (Suc k)"
    by simp
  finally show ?case .
qed

lemma probe_reaches:
  assumes "0 \<le> h" "h < 2 * cap" "0 \<le> b" "b < 2 * cap"
  shows "\<exists>k. k < nat (2 * cap) \<and> probe cap h k = b"
proof -
  define k where "k = nat ((b - h) mod (2 * cap))"
  have pos: "0 < 2 * cap" using assms by linarith
  have k: "int k = (b - h) mod (2 * cap)" "k < nat (2 * cap)"
    using pos by (simp_all add: k_def nat_less_iff)
  have "probe cap h k = (h + (b - h) mod (2 * cap)) mod (2 * cap)"
    using probe_mod[OF assms(1,2)] k by simp
  also have "\<dots> = b mod (2 * cap)"
    by (simp add: mod_add_right_eq)
  also have "\<dots> = b" using assms by simp
  finally show ?thesis using k by blast
qed

lemma probe_in_table:
  assumes "0 \<le> h" "h < 2 * cap"
  shows "0 \<le> probe cap h k \<and> probe cap h k < 2 * cap"
proof -
  have "0 < 2 * cap" using assms by linarith
  then show ?thesis unfolding probe_mod[OF assms] by simp
qed

text \<open>retrieve walks the probe sequence up to the first bucket where it stops.\<close>

lemma retrieve_loop_walk:
  assumes "\<forall>j<k. \<not> retrieve_stops pd t key (probe (capacity t) h j)"
    and "retrieve_stops pd t key (probe (capacity t) h k)"
  shows "retrieve_loop pd t key h = Some (entries t (probe (capacity t) h k))"
  using assms
proof (induction k arbitrary: h)
  case 0
  then show ?case
    by (subst retrieve_loop.simps) (auto simp: probe_0 retrieve_stops_def)
next
  case (Suc k)
  have ns: "\<not> retrieve_stops pd t key h"
    using Suc.prems(1) by (auto simp: probe_0 dest: spec[of _ 0])
  have a: "\<forall>j<k. \<not> retrieve_stops pd t key (probe (capacity t) (next_bucket (capacity t) h) j)"
    using Suc.prems(1) by (auto simp: probe_Suc[symmetric])
  have b: "retrieve_stops pd t key (probe (capacity t) (next_bucket (capacity t) h) k)"
    using Suc.prems(2) by (simp add: probe_Suc)
  have "retrieve_loop pd t key h = retrieve_loop pd t key (next_bucket (capacity t) h)"
    using ns by (subst retrieve_loop.simps) (simp add: retrieve_stops_def)
  then show ?case using Suc.IH[OF a b] by (simp add: probe_Suc)
qed

lemma insert_loop_walk:
  assumes "\<forall>j<k. \<not> insert_stops pd t key (probe (capacity t) h j)"
    and "insert_stops pd t key (probe (capacity t) h k)"
  shows "insert_loop pd t key slot h =
     (if entries t (probe (capacity t) h k) = -1
      then Some (t\<lparr>keys := write_key pd (keys t) slot key,
                   entries := (entries t)(probe (capacity t) h k := slot)\<rparr>, probe (capacity t) h k)
      else Some (t, probe (capacity t) h k))"
  using assms
proof (induction k arbitrary: h)
  case 0
  then show ?case
    by (subst insert_loop.simps) (auto simp: probe_0 insert_stops_def)
next
  case (Suc k)
  have ns: "\<not> insert_stops pd t key h"
    using Suc.prems(1) by (auto simp: probe_0 dest: spec[of _ 0])
  have a: "\<forall>j<k. \<not> insert_stops pd t key (probe (capacity t) (next_bucket (capacity t) h) j)"
    using Suc.prems(1) by (auto simp: probe_Suc[symmetric])
  have b: "insert_stops pd t key (probe (capacity t) (next_bucket (capacity t) h) k)"
    using Suc.prems(2) by (simp add: probe_Suc)
  have "insert_loop pd t key slot h = insert_loop pd t key slot (next_bucket (capacity t) h)"
    using ns by (subst insert_loop.simps) (auto simp add: insert_stops_def)
  then show ?case unfolding probe_Suc using Suc.IH[OF a b] by (simp only:)
qed

text \<open>A loop that never reaches a stopping bucket does not return.\<close>

lemma retrieve_loop_Some_stops:
  assumes "retrieve_loop pd t key h = Some y"
  shows "\<exists>k. retrieve_stops pd t key (probe (capacity t) h k)"
proof (rule retrieve_loop.raw_induct
    [where P = "\<lambda>pd t key h y. \<exists>k. retrieve_stops pd t key (probe (capacity t) h k)", OF _ assms])
  fix f pd t key h and y :: int
  assume IH: "\<And>pd t key h y. f pd t key h = Some y \<Longrightarrow>
      \<exists>k. retrieve_stops pd t key (probe (capacity t) h k)"
    and body: "(if entries t h = - 1 then Some (- 1)
       else if key_match pd (keys t) (entries t h) key then Some (entries t h)
       else f pd t key (next_bucket (capacity t) h)) = Some y"
  show "\<exists>k. retrieve_stops pd t key (probe (capacity t) h k)"
  proof (cases "retrieve_stops pd t key h")
    case True
    then have "retrieve_stops pd t key (probe (capacity t) h 0)" by (simp add: probe_0)
    then show ?thesis by blast
  next
    case False
    then have "f pd t key (next_bucket (capacity t) h) = Some y"
      using body by (auto simp: retrieve_stops_def split: if_splits)
    from IH[OF this] obtain k where
      "retrieve_stops pd t key (probe (capacity t) (next_bucket (capacity t) h) k)" by blast
    then have "retrieve_stops pd t key (probe (capacity t) h (Suc k))" by (simp add: probe_Suc)
    then show ?thesis by blast
  qed
qed

lemma insert_loop_Some_stops:
  assumes "insert_loop pd t key slot h = Some y"
  shows "\<exists>k. insert_stops pd t key (probe (capacity t) h k)"
proof (rule insert_loop.raw_induct
    [where P = "\<lambda>pd t key slot h y. \<exists>k. insert_stops pd t key (probe (capacity t) h k)", OF _ assms])
  fix f pd t key slot h and y :: "HashTableGPU \<times> int"
  assume IH: "\<And>pd t key slot h y. f pd t key slot h = Some y \<Longrightarrow>
      \<exists>k. insert_stops pd t key (probe (capacity t) h k)"
    and body: "(if entries t h = - 2 then f pd t key slot (next_bucket (capacity t) h)
      else if entries t h = - 1 then
        Some (t\<lparr>keys := write_key pd (keys t) slot key, entries := (entries t)(h := slot)\<rparr>, h)
      else if key_match pd (keys t) (entries t h) key then Some (t, h)
      else f pd t key slot (next_bucket (capacity t) h)) = Some y"
  show "\<exists>k. insert_stops pd t key (probe (capacity t) h k)"
  proof (cases "insert_stops pd t key h")
    case True
    then have "insert_stops pd t key (probe (capacity t) h 0)" by (simp add: probe_0)
    then show ?thesis by blast
  next
    case False
    then have "f pd t key slot (next_bucket (capacity t) h) = Some y"
      using body by (auto simp: insert_stops_def split: if_splits)
    from IH[OF this] obtain k where
      "insert_stops pd t key (probe (capacity t) (next_bucket (capacity t) h) k)" by blast
    then have "insert_stops pd t key (probe (capacity t) h (Suc k))" by (simp add: probe_Suc)
    then show ?thesis by blast
  qed
qed

lemma retrieve_loop_diverges:
  assumes "\<forall>k. \<not> retrieve_stops pd t key (probe (capacity t) h k)"
  shows "retrieve_loop pd t key h = None"
  using assms retrieve_loop_Some_stops by (cases "retrieve_loop pd t key h") blast+

lemma insert_loop_diverges:
  assumes "\<forall>k. \<not> insert_stops pd t key (probe (capacity t) h k)"
  shows "insert_loop pd t key slot h = None"
  using assms insert_loop_Some_stops by (cases "insert_loop pd t key slot h") blast+

lemma cell_index_div:
  assumes "i < pd"
  shows "(c * int pd + int i) div int pd = c"
  using assms by simp

lemma cell_index_neq:
  assumes "c \<noteq> s" "i < pd" "i' < pd"
  shows "c * int pd + int i \<noteq> s * int pd + int i'"
proof
  assume "c * int pd + int i = s * int pd + int i'"
  then have "(c * int pd + int i) div int pd = (s * int pd + int i') div int pd" by simp
  then show False using assms by (simp only: cell_index_div)
qed

lemma write_cells:
  "foldl (\<lambda>m i. m(s * int pd + int i := key ! i)) ks [0..<n] a =
     (if \<exists>i<n. a = s * int pd + int i then key ! nat (a - s * int pd) else ks a)"
proof (induction n)
  case 0
  show ?case by simp
next
  case (Suc n)
  show ?case
  proof (cases "a = s * int pd + int n")
    case True
    then show ?thesis by auto
  next
    case False
    have "(\<exists>i<Suc n. a = s * int pd + int i) = (\<exists>i<n. a = s * int pd + int i)"
      using False less_Suc_eq by auto
    then show ?thesis using False Suc.IH by simp
  qed
qed

lemma write_key_same:
  assumes "i < pd"
  shows "write_key pd ks s key (s * int pd + int i) = key ! i"
  unfolding write_key_def write_cells using assms by auto

lemma write_key_other:
  assumes "c \<noteq> s" "i < pd"
  shows "write_key pd ks s key (c * int pd + int i) = ks (c * int pd + int i)"
  unfolding write_key_def write_cells using cell_index_neq[OF assms] by auto

lemma key_match_iff:
  "key_match pd ks c key \<longleftrightarrow> (\<forall>i<pd. ks (c * int pd + int i) = key ! i)"
  by (auto simp: key_match_def list_all_iff)

lemma key_match_write_same: "key_match pd (write_key pd ks s key) s key"
  by (simp add: key_match_iff write_key_same)

lemma key_match_write_other:
  "c \<noteq> s \<Longrightarrow> key_match pd (write_key pd ks s key) c key' = key_match pd ks c key'"
  by (simp add: key_match_iff write_key_other)

lemma first_stop:
  assumes "P (k::nat)"
  shows "\<exists>k0\<le>k. P k0 \<and> (\<forall>j<k0. \<not> P j)"
proof -
  have "P (LEAST x. P x)" using assms by (rule LeastI)
  moreover have "(LEAST x. P x) \<le> k" using assms by (rule Least_le)
  moreover have "\<forall>j<(LEAST x. P x). \<not> P j" using not_less_Least by blast
  ultimately show ?thesis by blast
qed

lemma modHash_in_table:
  assumes "0 < capacity t" "2 * capacity t < 2 ^ 31"
  shows "0 \<le> modHash (capacity t) w" "modHash (capacity t) w < 2 * capacity t"
  unfolding modHash_eq[OF assms] using assms by simp_all

lemma insert_retrieve_aux:
  assumes cap: "0 < capacity t" "2 * capacity t < 2 ^ 31"
    and wf: "\<forall>b. in_table t b \<longrightarrow> -1 \<le> entries t b"
    and slot: "0 \<le> slot"
    and ins: "insert_ht pd t key slot = Some (t', h)"
  shows "in_table t h \<and> 0 \<le> entries t' h \<and> key_match pd (keys t') (entries t' h) key
    \<and> retrieve pd t' key = Some (entries t' h)"
proof -
  define h0 where "h0 = modHash (capacity t) (hash pd key)"
  define pr where "pr = probe (capacity t) h0"
  have h0: "0 \<le> h0" "h0 < 2 * capacity t"
    unfolding h0_def using modHash_in_table[OF cap] by simp_all
  have rng: "in_table t (pr k)" for k
    unfolding pr_def in_table_def using probe_in_table[OF h0] by simp
  have il: "insert_loop pd t key slot h0 = Some (t', h)"
    using ins by (simp add: insert_ht_def h0_def)
  from insert_loop_Some_stops[OF il] obtain k where "insert_stops pd t key (pr k)"
    unfolding pr_def by blast
  from first_stop[of "\<lambda>k. insert_stops pd t key (pr k)", OF this]
  obtain k0 where k0: "insert_stops pd t key (pr k0)" "\<forall>j<k0. \<not> insert_stops pd t key (pr j)"
    by blast
  have walk: "insert_loop pd t key slot h0 =
     (if entries t (pr k0) = -1
      then Some (t\<lparr>keys := write_key pd (keys t) slot key,
                   entries := (entries t)(pr k0 := slot)\<rparr>, pr k0)
      else Some (t, pr k0))"
    unfolding pr_def by (rule insert_loop_walk) (use k0 in \<open>simp_all add: pr_def\<close>)
  have h: "h = pr k0" using walk il by (auto split: if_splits)
  have before: "entries t (pr j) \<noteq> -1 \<and> \<not> key_match pd (keys t) (entries t (pr j)) key"
    if "j < k0" for j
  proof -
    have "\<not> insert_stops pd t key (pr j)" using k0(2) that by blast
    moreover have "entries t (pr j) \<noteq> -2" using wf rng[of j] by fastforce
    ultimately show ?thesis by (auto simp: insert_stops_def)
  qed
  show ?thesis
  proof (cases "entries t h = -1")
    case False
    then have t': "t' = t" using walk il h by auto
    have m: "key_match pd (keys t) (entries t h) key"
      using k0(1) False by (auto simp: insert_stops_def h)
    have "retrieve_loop pd t key h0 = Some (entries t (pr k0))"
      unfolding pr_def
      by (rule retrieve_loop_walk) (use before m h in \<open>auto simp: retrieve_stops_def pr_def\<close>)
    moreover have "0 \<le> entries t h" using wf rng[of k0] False h by fastforce
    ultimately show ?thesis using m rng[of k0] by (simp add: t' retrieve_def h0_def h)
  next
    case True
    then have t': "t' = t\<lparr>keys := write_key pd (keys t) slot key, entries := (entries t)(h := slot)\<rparr>"
      using walk il h by auto
    have c': "capacity t' = capacity t" and e': "entries t' h = slot"
      and ks': "keys t' = write_key pd (keys t) slot key"
      by (simp_all add: t')
    have stop_h: "retrieve_stops pd t' key (pr k0)"
      by (simp add: retrieve_stops_def h[symmetric] e' ks' key_match_write_same)
    from first_stop[of "\<lambda>k. retrieve_stops pd t' key (pr k)", OF stop_h]
    obtain k1 where k1: "k1 \<le> k0" "retrieve_stops pd t' key (pr k1)"
      "\<forall>j<k1. \<not> retrieve_stops pd t' key (pr j)" by blast
    have r: "retrieve_loop pd t' key h0 = Some (entries t' (pr k1))"
      using retrieve_loop_walk[of k1 pd t' key h0] k1 by (simp add: c' pr_def)
    have "entries t' (pr k1) = slot"
    proof (cases "k1 = k0")
      case True
      then show ?thesis using e' h by simp
    next
      case False
      then have lt: "k1 < k0" using k1(1) by simp
      have ne: "pr k1 \<noteq> h" using before[OF lt] True by auto
      then have same: "entries t' (pr k1) = entries t (pr k1)" by (simp add: t')
      have "key_match pd (keys t') (entries t (pr k1)) key"
        using k1(2) before[OF lt] by (simp add: retrieve_stops_def same)
      then show ?thesis
        using before[OF lt] key_match_write_other[of "entries t (pr k1)" slot pd "keys t" key key]
        by (auto simp: ks' same)
    qed
    then have "retrieve pd t' key = Some (entries t' h)"
      using r by (simp add: retrieve_def c' h0_def e')
    then show ?thesis
      using rng[of k0] slot by (simp add: h e'[unfolded h] ks' key_match_write_same)
  qed
qed

lemma hash_1: "hash (Suc 0) [x] = scast x * 2531011"
  by (simp add: hash_def)

lemma insert_one_key: "insert_ht 1 (newHashTable 2) [1] 0 = Some (table_one_key, 3)"
  by (simp add: insert_ht_def insert_loop.simps newHashTable_def hash_1 modHash_def
      write_key_def table_one_key_def)

lemma retrieve_one_key: "retrieve 1 table_one_key [1] = Some 0"
  by (simp add: retrieve_def retrieve_loop.simps hash_1 modHash_def key_match_def table_one_key_def)

text \<open>
  Claim C1, as stated, fails: \<open>insert\<close> returns the bucket index \<open>h\<close> into the
  \<open>entries\<close> array, while \<open>retrieve\<close> returns the content \<open>*e\<close> of that bucket, the
  slot index into the keys and values arrays. With capacity 2 the key \<open>[1]\<close> hashes to
  bucket 3; inserted with slot 0, \<open>insert\<close> returns 3 and \<open>retrieve\<close> returns 0.
\<close>

theorem insert_index_differs_from_retrieve:
  "insert_ht 1 (newHashTable 2) [1] 0 = Some (table_one_key, 3)
   \<and> retrieve 1 table_one_key [1] = Some 0
   \<and> retrieve 1 table_one_key [1] \<noteq> Some 3"
  using insert_one_key retrieve_one_key by simp

lemma retrieve_stop_reached:
  assumes cap: "0 < capacity t" "2 * capacity t < 2 ^ 31"
    and b: "in_table t b" "retrieve_stops pd t key b"
  shows "\<exists>k<nat (2 * capacity t). retrieve_stops pd t key (probe (capacity t) (modHash (capacity t) (hash pd key)) k)
      \<and> retrieve pd t key = Some (entries t (probe (capacity t) (modHash (capacity t) (hash pd key)) k))"
proof -
  define h0 where "h0 = modHash (capacity t) (hash pd key)"
  have h0: "0 \<le> h0" "h0 < 2 * capacity t"
    unfolding h0_def using modHash_in_table[OF cap] by simp_all
  from probe_reaches[OF h0, of b] b(1) obtain k where
    k: "k < nat (2 * capacity t)" "probe (capacity t) h0 k = b"
    by (auto simp: in_table_def)
  from first_stop[of "\<lambda>k. retrieve_stops pd t key (probe (capacity t) h0 k)" k] b(2) k(2)
  obtain k0 where k0: "k0 \<le> k" "retrieve_stops pd t key (probe (capacity t) h0 k0)"
    "\<forall>j<k0. \<not> retrieve_stops pd t key (probe (capacity t) h0 j)" by auto
  have "retrieve_loop pd t key h0 = Some (entries t (probe (capacity t) h0 k0))"
    using k0 by (intro retrieve_loop_walk) simp_all
  then show ?thesis
    using k0 k(1) by (auto simp: retrieve_def h0_def[symmetric] intro!: exI[of _ k0])
qed

lemma insert_stop_reached:
  assumes cap: "0 < capacity t" "2 * capacity t < 2 ^ 31"
    and b: "in_table t b" "insert_stops pd t key b"
  shows "\<exists>k<nat (2 * capacity t). \<exists>t'. insert_stops pd t key (probe (capacity t) (modHash (capacity t) (hash pd key)) k)
      \<and> insert_ht pd t key slot = Some (t', probe (capacity t) (modHash (capacity t) (hash pd key)) k)"
proof -
  define h0 where "h0 = modHash (capacity t) (hash pd key)"
  have h0: "0 \<le> h0" "h0 < 2 * capacity t"
    unfolding h0_def using modHash_in_table[OF cap] by simp_all
  from probe_reaches[OF h0, of b] b(1) obtain k where
    k: "k < nat (2 * capacity t)" "probe (capacity t) h0 k = b"
    by (auto simp: in_table_def)
  from first_stop[of "\<lambda>k. insert_stops pd t key (probe (capacity t) h0 k)" k] b(2) k(2)
  obtain k0 where k0: "k0 \<le> k" "insert_stops pd t key (probe (capacity t) h0 k0)"
    "\<forall>j<k0. \<not> insert_stops pd t key (probe (capacity t) h0 j)" by auto
  have "\<exists>t'. insert_loop pd t key slot h0 = Some (t', probe (capacity t) h0 k0)"
    using insert_loop_walk[of k0 pd t key h0 slot] k0 by (auto split: if_splits)
  then show ?thesis
    using k0 k(1) by (auto simp: insert_ht_def h0_def[symmetric] intro!: exI[of _ k0])
qed

lemma retrieve_never_returns:
  assumes cap: "0 < capacity t" "2 * capacity t < 2 ^ 31"
    and full: "\<forall>b. in_table t b \<longrightarrow> \<not> retrieve_stops pd t key b"
  shows "retrieve pd t key = None"
  unfolding retrieve_def
proof (rule retrieve_loop_diverges, rule allI)
  fix k
  have "in_table t (probe (capacity t) (modHash (capacity t) (hash pd key)) k)"
    unfolding in_table_def by (rule probe_in_table) (rule modHash_in_table[OF cap])+
  with full show "\<not> retrieve_stops pd t key (probe (capacity t) (modHash (capacity t) (hash pd key)) k)"
    by blast
qed

lemma insert_never_returns:
  assumes cap: "0 < capacity t" "2 * capacity t < 2 ^ 31"
    and full: "\<forall>b. in_table t b \<longrightarrow> \<not> insert_stops pd t key b"
  shows "insert_ht pd t key slot = None"
  unfolding insert_ht_def
proof (rule insert_loop_diverges, rule allI)
  fix k
  have "in_table t (probe (capacity t) (modHash (capacity t) (hash pd key)) k)"
    unfolding in_table_def by (rule probe_in_table) (rule modHash_in_table[OF cap])+
  with full show "\<not> insert_stops pd t key (probe (capacity t) (modHash (capacity t) (hash pd key)) k)"
    by blast
qed

lemma next_bucket_wraps: "next_bucket cap (cap * 2 - 1) = 0"
  by (simp add: next_bucket_def)

lemma in_table_cases_1: "capacity t = 1 \<Longrightarrow> in_table t b \<longleftrightarrow> b = 0 \<or> b = 1"
  by (auto simp: in_table_def)

lemma insert_half: "insert_ht 1 (newHashTable 1) [2] 0 = Some (table_half, 0)"
  by (simp add: insert_ht_def insert_loop.simps newHashTable_def hash_1 modHash_def
      write_key_def table_half_def)

lemma insert_full: "insert_ht 1 table_half [1] 0 = Some (table_full, 1)"
  by (simp add: insert_ht_def insert_loop.simps hash_1 modHash_def
      write_key_def table_half_def table_full_def key_match_def)

lemma table_full_no_stop:
  "in_table table_full b \<Longrightarrow> \<not> retrieve_stops 1 table_full [3] b"
  "in_table table_full b \<Longrightarrow> \<not> insert_stops 1 table_full [3] b"
  by (auto simp: in_table_def retrieve_stops_def insert_stops_def table_full_def key_match_def)

lemma table_full_capacity: "0 < capacity table_full" "2 * capacity table_full < 2 ^ 31"
  by (simp_all add: table_full_def)

lemma retrieve_full: "retrieve 1 table_full [3] = None"
  using table_full_no_stop(1) by (intro retrieve_never_returns[OF table_full_capacity]) blast

lemma insert_into_full: "insert_ht 1 table_full [3] 0 = None"
  using table_full_no_stop(2) by (intro insert_never_returns[OF table_full_capacity]) blast

text \<open>
  Claim C9, as stated, fails: neither loop has an error exit. A table of capacity 1 whose
  two buckets are both occupied (built by two inserts that reuse slot 0) makes
  \<open>retrieve\<close> and \<open>insert\<close> of an absent key wrap around forever: the model's value is
  \<open>None\<close>, the loop does not return.
\<close>

theorem full_table_probe_never_fails:
  "insert_ht 1 (newHashTable 1) [2] 0 = Some (table_half, 0)
   \<and> insert_ht 1 table_half [1] 0 = Some (table_full, 1)
   \<and> retrieve 1 table_full [3] = None
   \<and> insert_ht 1 table_full [3] 0 = None"
  using insert_half insert_full retrieve_full insert_into_full by simp

text \<open>
  Claim C9, amended: the probe index of \<open>insert\<close> and \<open>retrieve\<close> wraps from bucket
  \<open>2*capacity - 1\<close> to bucket 0 and the loop goes on. When some bucket of the table
  stops the loop (it is empty or holds the key; for \<open>insert\<close> it must also be unlocked),
  the loop returns at a bucket reached in fewer than \<open>2*capacity\<close> steps from the start
  bucket; when no bucket does, the loop never returns, and no error is raised.
\<close>

theorem probe_loop_wraps_around:
  assumes "0 < capacity t" and "2 * capacity t < 2 ^ 31"
  shows "next_bucket (capacity t) (capacity t * 2 - 1) = 0
    \<and> ((\<exists>b. in_table t b \<and> retrieve_stops pd t key b) \<longrightarrow>
         (\<exists>k<nat (2 * capacity t).
            retrieve pd t key =
              Some (entries t (probe (capacity t) (modHash (capacity t) (hash pd key)) k))))
    \<and> ((\<forall>b. in_table t b \<longrightarrow> \<not> retrieve_stops pd t key b) \<longrightarrow> retrieve pd t key = None)
    \<and> ((\<exists>b. in_table t b \<and> insert_stops pd t key b) \<longrightarrow>
         (\<exists>k<nat (2 * capacity t). \<exists>t'.
            insert_ht pd t key slot =
              Some (t', probe (capacity t) (modHash (capacity t) (hash pd key)) k)))
    \<and> ((\<forall>b. in_table t b \<longrightarrow> \<not> insert_stops pd t key b) \<longrightarrow> insert_ht pd t key slot = None)"
proof (intro conjI impI)
  show "next_bucket (capacity t) (capacity t * 2 - 1) = 0" by (rule next_bucket_wraps)
next
  assume "\<exists>b. in_table t b \<and> retrieve_stops pd t key b"
  then obtain b where "in_table t b" "retrieve_stops pd t key b" by blast
  from retrieve_stop_reached[OF assms this]
  show "\<exists>k<nat (2 * capacity t).
            retrieve pd t key =
              Some (entries t (probe (capacity t) (modHash (capacity t) (hash pd key)) k))"
    by blast
next
  assume "\<forall>b. in_table t b \<longrightarrow> \<not> retrieve_stops pd t key b"
  then show "retrieve pd t key = None" by (rule retrieve_never_returns[OF assms])
next
  assume "\<exists>b. in_table t b \<and> insert_stops pd t key b"
  then obtain b where "in_table t b" "insert_stops pd t key b" by blast
  from insert_stop_reached[OF assms this]
  show "\<exists>k<nat (2 * capacity t). \<exists>t'.
            insert_ht pd t key slot =
              Some (t', probe (capacity t) (modHash (capacity t) (hash pd key)) k)"
    by blast
next
  assume "\<forall>b. in_table t b \<longrightarrow> \<not> insert_stops pd t key b"
  then show "insert_ht pd t key slot = None" by (rule insert_never_returns[OF assms])
qed

text \<open>
  Claim C7, as stated, fails: the loop body adds the coordinate first and multiplies
  afterwards, so the hash of the one-coordinate key \<open>[1]\<close> is 2531011, where the
  iteration \<open>k = k*2531011 + key[i]\<close> gives 1.
\<close>

theorem hash_is_not_horner_polynomial:
  "hash 1 [1] = 2531011 \<and> spec_hash 1 [1] = 1 \<and> hash 1 [1] \<noteq> spec_hash 1 [1]"
  by (simp add: hash_def spec_hash_def)

text \<open>
  Claim C7, amended: the hash iterates \<open>k = (k + key[i]) * 2531011\<close> over the \<open>pd\<close>
  coordinates in 32-bit unsigned arithmetic, which is the polynomial hash of the claim
  multiplied once more by 2531011; the probe start index of \<open>insert\<close> and \<open>retrieve\<close> is
  that hash reduced modulo \<open>2*capacity\<close> (for \<open>0 < capacity < 2^30\<close>).
\<close>

theorem hash_multiplies_after_adding:
  "hash pd key = foldl (\<lambda>k i. (k + scast (key ! i)) * 2531011) 0 [0..<pd]
   \<and> hash pd key = spec_hash pd key * 2531011
   \<and> (0 < capacity t \<and> 2 * capacity t < 2 ^ 31 \<longrightarrow>
        modHash (capacity t) (hash pd key) = uint (hash pd key) mod (2 * capacity t)
        \<and> insert_ht pd t key slot = insert_loop pd t key slot (uint (hash pd key) mod (2 * capacity t))
        \<and> retrieve pd t key = retrieve_loop pd t key (uint (hash pd key) mod (2 * capacity t)))"
  using hash_spec_hash[of pd key] modHash_eq[of "capacity t" "hash pd key"]
  by (simp add: insert_ht_def retrieve_def hash_def)

theorem hash_multiplies_after_adding_witness:
  "hash 1 [1] = spec_hash 1 [1] * 2531011
   \<and> 0 < capacity (newHashTable 2) \<and> 2 * capacity (newHashTable 2) < 2 ^ 31
   \<and> modHash (capacity (newHashTable 2)) (hash 1 [1]) = uint (hash 1 [1]) mod (2 * capacity (newHashTable 2))
   \<and> modHash (capacity (newHashTable 2)) (hash 1 [1]) = 3"
proof -
  have a: "0 < capacity (newHashTable 2) \<and> 2 * capacity (newHashTable 2) < 2 ^ 31"
    by (simp add: newHashTable_def)
  have b: "modHash (capacity (newHashTable 2)) (hash 1 [1]) = 3"
    by (simp add: newHashTable_def modHash_def hash_1)
  have c: "hash 1 [1] = spec_hash 1 [1] * 2531011"
    "modHash (capacity (newHashTable 2)) (hash 1 [1]) = uint (hash 1 [1]) mod (2 * capacity (newHashTable 2))"
    using a hash_multiplies_after_adding[of 1 "[1]" "newHashTable 2" 0] by blast+
  show ?thesis
    using a b c by blast
qed

theorem probe_loop_wraps_around_witness:
  "0 < capacity table_full \<and> 2 * capacity table_full < 2 ^ 31
   \<and> retrieve 1 table_full [3] = None \<and> insert_ht 1 table_full [3] 0 = None
   \<and> in_table table_full 0 \<and> retrieve_stops 1 table_full [1] 0 \<and> insert_stops 1 table_full [1] 0
   \<and> (\<exists>k<nat (2 * capacity table_full).
         retrieve 1 table_full [1] =
           Some (entries table_full (probe (capacity table_full) (modHash (capacity table_full) (hash 1 [1])) k)))
   \<and> (\<exists>k<nat (2 * capacity table_full). \<exists>t'.
         insert_ht 1 table_full [1] 0 =
           Some (t', probe (capacity table_full) (modHash (capacity table_full) (hash 1 [1])) k))"
proof -
  have a: "0 < capacity table_full" "2 * capacity table_full < 2 ^ 31"
    by (simp_all add: table_full_def)
  have s: "in_table table_full 0" "retrieve_stops 1 table_full [1] 0" "insert_stops 1 table_full [1] 0"
    by (simp_all add: in_table_def retrieve_stops_def insert_stops_def table_full_def key_match_def)
  have n: "\<forall>b. in_table table_full b \<longrightarrow> \<not> retrieve_stops 1 table_full [3] b"
    "\<forall>b. in_table table_full b \<longrightarrow> \<not> insert_stops 1 table_full [3] b"
    using table_full_no_stop by blast+
  show ?thesis
    using a s n probe_loop_wraps_around[OF a, of 1 "[3]" 0]
      probe_loop_wraps_around[OF a, of 1 "[1]" 0]
    by blast
qed

section \<open>Elevation\<close>

lemma elevate_loop_eq:
  "elevate_loop p sf n (sm, el) =
     (sm + (\<Sum>j<n. p j * sf j),
      \<lambda>i. if 1 \<le> i \<and> i \<le> n
          then sm + (\<Sum>j=i..<n. p j * sf j) - real i * (p (i - 1) * sf (i - 1))
          else el i)"
proof (induction n arbitrary: sm el)
  case 0
  show ?case by auto
next
  case (Suc n)
  show ?case
    unfolding elevate_loop.simps Suc.IH
    by (auto simp: fun_eq_iff)
qed

lemma elevate_0: "elevate pd p sf 0 = (\<Sum>j<pd. p j * sf j)"
  by (simp add: elevate_def elevate_loop_eq)

lemma elevate_pos:
  assumes "1 \<le> i" "i \<le> pd"
  shows "elevate pd p sf i = (\<Sum>j=i..<pd. p j * sf j) - real i * (p (i - 1) * sf (i - 1))"
  using assms by (simp add: elevate_def elevate_loop_eq)

lemma sum_tails:
  fixes c :: "nat \<Rightarrow> real"
  shows "(\<Sum>i=1..n. (\<Sum>j=i..<n. c j)) = (\<Sum>j<n. real j * c j)"
proof (induction n)
  case 0
  show ?case by simp
next
  case (Suc n)
  have "(\<Sum>i=1..Suc n. (\<Sum>j=i..<Suc n. c j)) = (\<Sum>i=1..n. (\<Sum>j=i..<Suc n. c j))"
    by simp
  also have "\<dots> = (\<Sum>i=1..n. (\<Sum>j=i..<n. c j) + c n)"
    by (intro sum.cong refl) simp
  also have "\<dots> = (\<Sum>i=1..n. (\<Sum>j=i..<n. c j)) + real n * c n"
    by (simp add: sum.distrib)
  also have "\<dots> = (\<Sum>j<Suc n. real j * c j)"
    unfolding Suc.IH by simp
  finally show ?case .
qed

lemma sum_shift_index:
  fixes c :: "nat \<Rightarrow> real"
  shows "(\<Sum>i=1..n. real i * c (i - 1)) = (\<Sum>j<n. (real j + 1) * c j)"
proof (induction n)
  case 0
  show ?case by simp
next
  case (Suc n)
  then show ?case by (simp add: algebra_simps)
qed

lemma elevate_sum_zero: "(\<Sum>i\<le>pd. elevate pd p sf i) = 0"
proof -
  let ?c = "\<lambda>j. p j * sf j"
  have split: "{..pd} = insert 0 {1..pd}" by auto
  have "(\<Sum>i\<le>pd. elevate pd p sf i) = elevate pd p sf 0 + (\<Sum>i=1..pd. elevate pd p sf i)"
    unfolding split by (subst sum.insert) auto
  also have "(\<Sum>i=1..pd. elevate pd p sf i)
      = (\<Sum>i=1..pd. (\<Sum>j=i..<pd. ?c j) - real i * ?c (i - 1))"
    by (intro sum.cong refl) (simp add: elevate_pos)
  also have "\<dots> = (\<Sum>j<pd. real j * ?c j) - (\<Sum>j<pd. (real j + 1) * ?c j)"
    unfolding sum_subtractf sum_tails using sum_shift_index[of "\<lambda>j. p j * sf j" pd] by simp
  also have "\<dots> = - (\<Sum>j<pd. ?c j)"
    by (simp add: sum_subtractf[symmetric] algebra_simps sum_negf)
  finally show ?thesis by (simp add: elevate_0)
qed

text \<open>
  Claim C6, as stated, fails: the sum of the scaled coordinates is stored in
  \<open>elevated[0]\<close> after the loop, not in \<open>elevated[pd]\<close>. For one coordinate of scaled
  value 1, \<open>elevated[1] = 0 - 1*1 = -1\<close> and \<open>elevated[0] = 1\<close>.
\<close>

theorem elevated_last_is_not_the_sum:
  "elevate 1 unit_vector unit_vector 1 = -1
   \<and> unit_vector 0 * unit_vector 0 = 1
   \<and> elevate 1 unit_vector unit_vector 0 = 1"
  by (simp add: elevate_def unit_vector_def)

text \<open>
  Claim C6, amended: \<open>elevated[0]\<close> equals the sum of the \<open>pd\<close> scaled coordinates, and
  for \<open>i\<close> from \<open>pd\<close> down to 1, \<open>elevated[i] = running_sum - i*scaled[i-1]\<close>, where the
  running sum is the sum of the scaled coordinates of index \<open>i\<close> and above (those
  visited in earlier steps), updated after each step.
\<close>

theorem elevate_running_sum:
  "elevate pd position scaleFactor 0 = (\<Sum>j<pd. position j * scaleFactor j)
   \<and> (\<forall>i. 1 \<le> i \<and> i \<le> pd \<longrightarrow>
        elevate pd position scaleFactor i =
          (\<Sum>j=i..<pd. position j * scaleFactor j)
            - real i * (position (i - 1) * scaleFactor (i - 1)))"
  using elevate_0 elevate_pos by blast

theorem elevate_running_sum_witness:
  "elevate 2 ramp_vector unit_vector 0 = 3
   \<and> elevate 2 ramp_vector unit_vector 2 = - 4
   \<and> elevate 2 ramp_vector unit_vector 1 = 1"
proof -
  have "elevate 2 ramp_vector unit_vector 0 = (\<Sum>j<2. ramp_vector j * unit_vector j)"
    "elevate 2 ramp_vector unit_vector 2 =
       (\<Sum>j=2..<2. ramp_vector j * unit_vector j) - real 2 * (ramp_vector (2 - 1) * unit_vector (2 - 1))"
    "elevate 2 ramp_vector unit_vector 1 =
       (\<Sum>j=1..<2. ramp_vector j * unit_vector j) - real 1 * (ramp_vector (1 - 1) * unit_vector (1 - 1))"
    using elevate_running_sum[of 2 ramp_vector unit_vector] by simp_all
  then show ?thesis
    by (simp add: ramp_vector_def unit_vector_def lessThan_Suc numeral_2_eq_2)
qed

section \<open>Rounding\<close>

lemma sint_short_of_int:
  assumes "- 32768 \<le> z" "z \<le> 32767"
  shows "sint (word_of_int z :: short) = z"
proof -
  have "sint (word_of_int z :: short) = signed_take_bit 15 z"
    by (simp add: sint_sbintrunc')
  also have "\<dots> = z"
    using assms by (intro signed_take_bit_int_eq_self) simp_all
  finally show ?thesis .
qed

lemma sint_short_range: "- 32768 \<le> sint (w :: short)" "sint (w :: short) \<le> 32767"
  using sint_ge[of w] sint_lt[of w] by simp_all

lemma short_of_real_int: "short_of_real (real_of_int k) = word_of_int k"
  by (simp add: short_of_real_def)

lemma round_up_int: "round_up pd e = real_of_int (\<lceil>e * (1 / real (pd + 1))\<rceil> * (int pd + 1))"
  by (simp add: round_up_def)

lemma round_down_int: "round_down pd e = real_of_int (\<lfloor>e * (1 / real (pd + 1))\<rfloor> * (int pd + 1))"
  by (simp add: round_down_def)

lemma round_down_le: "round_down pd e \<le> e"
proof -
  define m where "m = real (pd + 1)"
  have m: "0 < m" by (simp add: m_def)
  have "real_of_int \<lfloor>e / m\<rfloor> \<le> e / m" by (rule of_int_floor_le)
  then have "real_of_int \<lfloor>e / m\<rfloor> * m \<le> e"
    using pos_le_divide_eq[OF m, of "real_of_int \<lfloor>e / m\<rfloor>" e] by blast
  then show ?thesis by (simp add: round_down_def m_def)
qed

lemma round_up_ge: "e \<le> round_up pd e"
proof -
  define m where "m = real (pd + 1)"
  have m: "0 < m" by (simp add: m_def)
  have "e / m \<le> real_of_int \<lceil>e / m\<rceil>" by (rule le_of_int_ceiling)
  then have "e \<le> real_of_int \<lceil>e / m\<rceil> * m"
    using pos_divide_le_eq[OF m, of e "real_of_int \<lceil>e / m\<rceil>"] by blast
  then show ?thesis by (simp add: round_up_def m_def)
qed

lemma round_up_down_gap: "round_up pd e - round_down pd e \<le> real (pd + 1)"
proof -
  define m where "m = real (pd + 1)"
  have m: "0 \<le> m" by (simp add: m_def)
  have "\<lceil>e / m\<rceil> - \<lfloor>e / m\<rfloor> \<le> 1" by (rule ceiling_diff_floor_le_1)
  then have "real_of_int \<lceil>e / m\<rceil> \<le> real_of_int \<lfloor>e / m\<rfloor> + 1"
    by linarith
  then have "real_of_int \<lceil>e / m\<rceil> * m \<le> (real_of_int \<lfloor>e / m\<rfloor> + 1) * m"
    using m by (rule mult_right_mono)
  then have "real_of_int \<lceil>e / m\<rceil> * m - real_of_int \<lfloor>e / m\<rfloor> * m \<le> m"
    by (simp add: algebra_simps)
  then show ?thesis by (simp add: round_up_def round_down_def m_def)
qed

lemma round_coord_eq:
  assumes "- 32768 \<le> round_down pd e" "round_up pd e \<le> 32767"
  shows "real_of_int (round_coord pd e) = nearest pd e"
proof -
  let ?u = "\<lceil>e * (1 / real (pd + 1))\<rceil> * (int pd + 1)"
  let ?d = "\<lfloor>e * (1 / real (pd + 1))\<rfloor> * (int pd + 1)"
  have du: "round_down pd e \<le> round_up pd e"
    using round_down_le[of pd e] round_up_ge[of e pd] by linarith
  have "- 32768 \<le> real_of_int ?d" "real_of_int ?d \<le> 32767"
    "- 32768 \<le> real_of_int ?u" "real_of_int ?u \<le> 32767"
    using assms du unfolding round_up_int round_down_int by linarith+
  then have r: "- 32768 \<le> ?d" "?d \<le> 32767" "- 32768 \<le> ?u" "?u \<le> 32767"
    by linarith+
  have "sint (short_of_real (round_up pd e)) = ?u"
    unfolding round_up_int short_of_real_int using r by (intro sint_short_of_int)
  moreover have "sint (short_of_real (round_down pd e)) = ?d"
    unfolding round_down_int short_of_real_int using r by (intro sint_short_of_int)
  ultimately show ?thesis
    unfolding round_coord_def nearest_def by (simp add: round_up_int round_down_int)
qed

lemma nearest_dvd:
  "\<exists>k. nearest pd e = real_of_int (k * (int pd + 1))"
proof (cases "round_up pd e - e < e - round_down pd e")
  case True
  then have "nearest pd e = real_of_int (\<lceil>e * (1 / real (pd + 1))\<rceil> * (int pd + 1))"
    by (simp only: nearest_def round_up_int if_True)
  then show ?thesis by blast
next
  case False
  then have "nearest pd e = real_of_int (\<lfloor>e * (1 / real (pd + 1))\<rfloor> * (int pd + 1))"
    by (simp only: nearest_def round_down_int if_False)
  then show ?thesis by blast
qed

lemma nearest_residual_aux:
  fixes e u d m n :: real
  assumes "d \<le> e" "e \<le> u" "u - d \<le> m" "0 < m"
    and "n = (if u - e < e - d then u else d)"
  shows "- (m / 2) < e - n \<and> e - n \<le> m / 2"
proof (cases "u - e < e - d")
  case True
  then have "n = u" using assms(5) by simp
  then show ?thesis using True assms(1-4) by (simp add: field_simps)
next
  case False
  then have "n = d" using assms(5) by simp
  then show ?thesis using False assms(1-4) by (simp add: field_simps)
qed

lemma nearest_residual:
  "- (real (pd + 1) / 2) < e - nearest pd e \<and> e - nearest pd e \<le> real (pd + 1) / 2"
  by (rule nearest_residual_aux[OF round_down_le round_up_ge round_up_down_gap])
     (simp_all add: nearest_def)

lemma nearest_close: "\<bar>e - nearest pd e\<bar> \<le> real (pd + 1) / 2"
  using nearest_residual[where pd = pd and e = e] by linarith

lemma nearest_tie:
  "round_up pd e - e = e - round_down pd e \<Longrightarrow> nearest pd e = round_down pd e"
  by (simp add: nearest_def)

lemma round_fold:
  "foldl (round_step pd el) (r0, s0) [0..<n] =
     (\<lambda>i. if i < n then round_coord pd (el i) else r0 i,
      s0 + word_of_int (\<Sum>i<n. round_coord pd (el i)))"
proof (induction n)
  case 0
  show ?case by simp
next
  case (Suc n)
  have "foldl (round_step pd el) (r0, s0) [0..<Suc n] =
      round_step pd el (foldl (round_step pd el) (r0, s0) [0..<n]) n"
    by simp
  also have "\<dots> = ((\<lambda>i. if i < n then round_coord pd (el i) else r0 i)(n := round_coord pd (el n)),
      s0 + word_of_int (\<Sum>i<n. round_coord pd (el i)) + word_of_int (round_coord pd (el n)))"
    unfolding Suc.IH by (simp add: round_step_def)
  also have "(\<lambda>i. if i < n then round_coord pd (el i) else r0 i)(n := round_coord pd (el n))
      = (\<lambda>i. if i < Suc n then round_coord pd (el i) else r0 i)"
    by (auto simp: fun_eq_iff)
  also have "s0 + word_of_int (\<Sum>i<n. round_coord pd (el i)) + word_of_int (round_coord pd (el n))
      = s0 + word_of_int (\<Sum>i<Suc n. round_coord pd (el i))"
    by simp
  finally show ?case .
qed

lemma round_all_rem0:
  "fst (round_all pd el) i = (if i \<le> pd then round_coord pd (el i) else 0)"
  unfolding round_all_def round_fold by (simp add: less_Suc_eq_le)

lemma round_all_sum:
  "snd (round_all pd el) =
     word_of_int (tdiv (sint (word_of_int (\<Sum>i\<le>pd. round_coord pd (el i)) :: short)) (int pd + 1))"
  unfolding round_all_def round_fold lessThan_Suc_atMost by simp

lemma div_le_abs:
  assumes "0 < (b::int)"
  shows "0 \<le> \<bar>a\<bar> div b" "\<bar>a\<bar> div b \<le> \<bar>a\<bar>"
proof -
  show "0 \<le> \<bar>a\<bar> div b" using assms by (simp add: pos_imp_zdiv_nonneg_iff)
  have "\<bar>a\<bar> div b \<le> \<bar>a\<bar> div 1"
    using assms by (intro zdiv_mono2) simp_all
  then show "\<bar>a\<bar> div b \<le> \<bar>a\<bar>" by simp
qed

lemma tdiv_abs_le:
  assumes "0 < b"
  shows "\<bar>tdiv a b\<bar> \<le> \<bar>a\<bar>"
proof -
  have "\<bar>tdiv a b\<bar> = \<bar>sgn a\<bar> * (\<bar>a\<bar> div b)"
    using assms div_le_abs(1)[OF assms, of a] by (simp add: tdiv_def abs_mult)
  also have "\<dots> \<le> 1 * (\<bar>a\<bar> div b)"
    using div_le_abs(1)[OF assms, of a] by (intro mult_right_mono) (simp_all add: abs_sgn_eq)
  finally show ?thesis using div_le_abs(2)[OF assms, of a] by simp
qed

lemma tdiv_short:
  assumes "0 < b"
  shows "sint (word_of_int (tdiv (sint (w :: short)) b) :: short) = tdiv (sint w) b"
proof -
  have "\<bar>tdiv (sint w) b\<bar> \<le> \<bar>sint w\<bar>" using assms by (rule tdiv_abs_le)
  moreover have "\<bar>sint w\<bar> \<le> 32768" using sint_short_range[of w] by linarith
  ultimately have a: "- 32768 \<le> tdiv (sint w) b" "tdiv (sint w) b \<le> 32768" by linarith+
  show ?thesis
  proof (cases "tdiv (sint w) b = 32768")
    case False
    with a show ?thesis by (intro sint_short_of_int) linarith+
  next
    case True
    then have "\<bar>sint w\<bar> = 32768"
      using \<open>\<bar>tdiv (sint w) b\<bar> \<le> \<bar>sint w\<bar>\<close> \<open>\<bar>sint w\<bar> \<le> 32768\<close> by linarith
    then have "sint w = - 32768" using sint_short_range[of w] by linarith
    then have "tdiv (sint w) b \<le> 0"
      using assms div_le_abs(1)[OF assms, of "- 32768"] by (simp add: tdiv_def)
    with True show ?thesis by linarith
  qed
qed

lemma round_coord_dvd:
  assumes "- 32768 \<le> round_down pd e" "round_up pd e \<le> 32767"
  shows "(int pd + 1) dvd round_coord pd e"
proof -
  from nearest_dvd[of pd e] obtain k where "nearest pd e = real_of_int (k * (int pd + 1))" by blast
  then have "real_of_int (round_coord pd e) = real_of_int (k * (int pd + 1))"
    using round_coord_eq[OF assms] by simp
  then have "round_coord pd e = k * (int pd + 1)" by (simp only: of_int_eq_iff)
  then show ?thesis by simp
qed

lemma unit_elevated:
  "elevate (Suc 0) unit_vector unit_vector 0 = 1"
  "elevate (Suc 0) unit_vector unit_vector (Suc 0) = - 1"
  by (simp_all add: elevate_def unit_vector_def)

lemma ceiling_half: "\<lceil>(1::real) / 2\<rceil> = 1" "\<lceil>- ((1::real) / 2)\<rceil> = 0"
  by (rule ceiling_unique; simp)+

lemma floor_half: "\<lfloor>(1::real) / 2\<rfloor> = 0" "\<lfloor>- ((1::real) / 2)\<rfloor> = - 1"
  by (rule floor_unique; simp)+

lemma round_unit:
  "round_up (Suc 0) 1 = 2" "round_down (Suc 0) 1 = 0"
  "round_up (Suc 0) (- 1) = 0" "round_down (Suc 0) (- 1) = - 2"
  by (simp_all add: round_up_def round_down_def ceiling_half floor_half)

lemma round_coord_unit: "round_coord (Suc 0) 1 = 0" "round_coord (Suc 0) (- 1) = - 2"
  by (simp_all add: round_coord_def round_unit short_of_real_def)

text \<open>
  Claim C5, as stated, fails: the comparison \<open>up - v < v - down\<close> is strict, so at a
  tie the lower multiple is taken. For \<open>pd = 1\<close> the elevated coordinate 1 lies midway
  between 0 and 2 and is rounded to 0.
\<close>

theorem rounding_tie_is_not_up:
  "elevate 1 unit_vector unit_vector 0 = 1
   \<and> round_up 1 1 = 2 \<and> round_down 1 1 = 0
   \<and> round_up 1 1 - 1 = 1 - round_down 1 1
   \<and> fst (round_all 1 (elevate 1 unit_vector unit_vector)) 0 = 0"
  using unit_elevated round_unit round_coord_unit by (simp add: round_all_rem0)

text \<open>
  Claim C5, amended: each elevated coordinate (whose two neighbouring multiples fit in
  \<open>short\<close>) is rounded to a nearest multiple of \<open>pd+1\<close> by comparing the distance up
  with the distance down; the upper multiple is taken only when it is strictly nearer,
  so ties go to the lower multiple. The chosen remainders are summed in a \<open>short\<close>
  and the sum is divided by \<open>pd+1\<close> with truncating integer division.
\<close>

theorem rounding_ties_go_down:
  assumes "\<forall>i\<le>pd. - 32768 \<le> round_down pd (elevated i) \<and> round_up pd (elevated i) \<le> 32767"
  shows "(\<forall>i\<le>pd.
            real_of_int (fst (round_all pd elevated) i) =
              (if round_up pd (elevated i) - elevated i < elevated i - round_down pd (elevated i)
               then round_up pd (elevated i) else round_down pd (elevated i))
          \<and> (int pd + 1) dvd fst (round_all pd elevated) i
          \<and> \<bar>elevated i - real_of_int (fst (round_all pd elevated) i)\<bar> \<le> real (pd + 1) / 2
          \<and> (round_up pd (elevated i) - elevated i = elevated i - round_down pd (elevated i) \<longrightarrow>
               real_of_int (fst (round_all pd elevated) i) = round_down pd (elevated i)))
       \<and> sint (snd (round_all pd elevated)) =
            tdiv (sint (word_of_int (\<Sum>i\<le>pd. fst (round_all pd elevated) i) :: short)) (int pd + 1)
       \<and> (- 32768 \<le> (\<Sum>i\<le>pd. fst (round_all pd elevated) i)
            \<and> (\<Sum>i\<le>pd. fst (round_all pd elevated) i) \<le> 32767 \<longrightarrow>
          sint (snd (round_all pd elevated)) =
            tdiv (\<Sum>i\<le>pd. fst (round_all pd elevated) i) (int pd + 1))"
proof -
  have rem: "(\<Sum>i\<le>pd. fst (round_all pd elevated) i) = (\<Sum>i\<le>pd. round_coord pd (elevated i))"
    by (intro sum.cong refl) (simp add: round_all_rem0)
  have s: "sint (snd (round_all pd elevated)) =
      tdiv (sint (word_of_int (\<Sum>i\<le>pd. fst (round_all pd elevated) i) :: short)) (int pd + 1)"
    unfolding rem round_all_sum by (rule tdiv_short) simp
  have pt: "real_of_int (fst (round_all pd elevated) i) = nearest pd (elevated i)
      \<and> (int pd + 1) dvd fst (round_all pd elevated) i" if "i \<le> pd" for i
    using that assms round_coord_eq[of pd "elevated i"] round_coord_dvd[of pd "elevated i"]
    by (simp add: round_all_rem0)
  show ?thesis
  proof (intro conjI allI impI)
    fix i assume i: "i \<le> pd"
    show "real_of_int (fst (round_all pd elevated) i) =
              (if round_up pd (elevated i) - elevated i < elevated i - round_down pd (elevated i)
               then round_up pd (elevated i) else round_down pd (elevated i))"
      using pt[OF i] by (simp add: nearest_def)
    show "(int pd + 1) dvd fst (round_all pd elevated) i" using pt[OF i] by simp
    show "\<bar>elevated i - real_of_int (fst (round_all pd elevated) i)\<bar> \<le> real (pd + 1) / 2"
      using pt[OF i] nearest_close[of "elevated i" pd] by simp
    show "real_of_int (fst (round_all pd elevated) i) = round_down pd (elevated i)"
      if "round_up pd (elevated i) - elevated i = elevated i - round_down pd (elevated i)"
      using pt[OF i] nearest_tie[OF that] by simp
  next
    show "sint (snd (round_all pd elevated)) =
      tdiv (sint (word_of_int (\<Sum>i\<le>pd. fst (round_all pd elevated) i) :: short)) (int pd + 1)"
      by (rule s)
  next
    assume "- 32768 \<le> (\<Sum>i\<le>pd. fst (round_all pd elevated) i)
            \<and> (\<Sum>i\<le>pd. fst (round_all pd elevated) i) \<le> 32767"
    then have "sint (word_of_int (\<Sum>i\<le>pd. fst (round_all pd elevated) i) :: short)
        = (\<Sum>i\<le>pd. fst (round_all pd elevated) i)"
      by (intro sint_short_of_int) simp_all
    then show "sint (snd (round_all pd elevated)) =
            tdiv (\<Sum>i\<le>pd. fst (round_all pd elevated) i) (int pd + 1)"
      using s by simp
  qed
qed

lemma unit_in_range:
  "\<forall>i\<le>1. - 32768 \<le> round_down 1 (elevate 1 unit_vector unit_vector i)
      \<and> round_up 1 (elevate 1 unit_vector unit_vector i) \<le> 32767"
proof (intro allI impI)
  fix i :: nat assume "i \<le> 1"
  then have "i = 0 \<or> i = Suc 0" by auto
  then show "- 32768 \<le> round_down 1 (elevate 1 unit_vector unit_vector i)
      \<and> round_up 1 (elevate 1 unit_vector unit_vector i) \<le> 32767"
    using unit_elevated round_unit by auto
qed

theorem rounding_ties_go_down_witness:
  "fst (round_all 1 (elevate 1 unit_vector unit_vector)) 0 = 0
   \<and> fst (round_all 1 (elevate 1 unit_vector unit_vector)) 1 = - 2
   \<and> real_of_int (fst (round_all 1 (elevate 1 unit_vector unit_vector)) 0)
        = round_down 1 (elevate 1 unit_vector unit_vector 0)
   \<and> sint (snd (round_all 1 (elevate 1 unit_vector unit_vector))) = - 1"
proof -
  note t = rounding_ties_go_down[OF unit_in_range]
  have r: "fst (round_all 1 (elevate 1 unit_vector unit_vector)) 0 = 0"
    "fst (round_all 1 (elevate 1 unit_vector unit_vector)) 1 = - 2"
    using unit_elevated round_coord_unit by (simp_all add: round_all_rem0)
  have "(\<Sum>i\<le>1. fst (round_all 1 (elevate 1 unit_vector unit_vector)) i) = - 2"
    using r by (simp add: atMost_Suc)
  then have "sint (snd (round_all 1 (elevate 1 unit_vector unit_vector))) = tdiv (- 2) (int 1 + 1)"
    using t by simp
  moreover have "real_of_int (fst (round_all 1 (elevate 1 unit_vector unit_vector)) 0)
        = round_down 1 (elevate 1 unit_vector unit_vector 0)"
    using t unit_elevated round_unit by simp
  ultimately show ?thesis using r by (simp add: tdiv_def)
qed

section \<open>Slice\<close>

lemma foldl_cells:
  "foldl (\<lambda>out i. out(base + int i := g i)) nv [0..<k] a =
     (if \<exists>i<k. a = base + int i then g (nat (a - base)) else nv a)"
proof (induction k)
  case 0
  show ?case by simp
next
  case (Suc k)
  show ?case
  proof (cases "a = base + int k")
    case True
    then show ?thesis by auto
  next
    case False
    have "(\<exists>i<Suc k. a = base + int i) = (\<exists>i<k. a = base + int i)"
      using False less_Suc_eq by auto
    then show ?thesis using False Suc.IH by simp
  qed
qed

lemma foldl_acc_cells:
  "foldl (\<lambda>v j. v(j := v j + g j)) v0 [0..<k] = (\<lambda>j. if j < k then v0 j + g j else v0 j)"
proof (induction k)
  case 0
  show ?case by simp
next
  case (Suc k)
  let ?f = "\<lambda>v j. v(j := v j + g j)"
  have "foldl ?f v0 [0..<Suc k] = (foldl ?f v0 [0..<k])(k := (foldl ?f v0 [0..<k]) k + g k)"
    by simp
  also have "\<dots> = (\<lambda>j. if j < Suc k then v0 j + g j else v0 j)"
    unfolding Suc.IH by (auto simp: fun_eq_iff)
  finally show ?case .
qed

lemma slice_accumulate_fold:
  "foldl (\<lambda>acc i. case acc of (value, wgt) \<Rightarrow>
              (let r = m (int (idx * (pd + 1) + i)) in
               (foldl (\<lambda>v j. v(j := v j + weight r * values_mem t (index r * int vd + int j)))
                  value [0..<vd - 1],
                wgt + weight r * values_mem t (index r * int vd + int (vd - 1)))))
       (\<lambda>_. 0, 0) [0..<k]
   = (\<lambda>j. if j < vd - 1
           then (\<Sum>i<k. weight (m (int (idx * (pd + 1) + i)))
                   * values_mem t (index (m (int (idx * (pd + 1) + i))) * int vd + int j))
           else 0,
      (\<Sum>i<k. weight (m (int (idx * (pd + 1) + i)))
         * values_mem t (index (m (int (idx * (pd + 1) + i))) * int vd + int (vd - 1))))"
proof (induction k)
  case 0
  show ?case by (auto simp: fun_eq_iff)
next
  case (Suc k)
  show ?case
    unfolding upt_Suc_append[OF le0] foldl_append Suc.IH
    by (simp add: foldl_acc_cells Let_def) (auto simp: fun_eq_iff)
qed

lemma slice_accumulate_eq:
  "slice_accumulate pd vd m t idx =
     (\<lambda>j. if j < vd - 1 then slice_value pd vd m t idx j else 0, slice_mass pd vd m t idx)"
  unfolding slice_accumulate_def slice_value_def slice_mass_def by (rule slice_accumulate_fold)

lemma slice_thread_eq:
  "slice_thread pd vd m t out idx =
     (\<lambda>a. if \<exists>j<vd - 1. a = int (idx * (vd - 1)) + int j
          then (if slice_mass pd vd m t idx = 0 then Inl DivisionByZero
                else Inr (slice_value pd vd m t idx (nat (a - int (idx * (vd - 1))))
                           * (1 / slice_mass pd vd m t idx)))
          else out a)"
proof -
  define g where "g = (\<lambda>j. case reciprocal (slice_mass pd vd m t idx) of
        Inl e \<Rightarrow> Inl e
      | Inr w \<Rightarrow> Inr ((if j < vd - 1 then slice_value pd vd m t idx j else 0) * w))"
  have "slice_thread pd vd m t out idx
      = foldl (\<lambda>out j. out(int (idx * (vd - 1)) + int j := g j)) out [0..<vd - 1]"
    unfolding slice_thread_def slice_accumulate_eq g_def by (simp only: prod.case of_nat_add)
  also have "\<dots> = (\<lambda>a. if \<exists>j<vd - 1. a = int (idx * (vd - 1)) + int j
          then g (nat (a - int (idx * (vd - 1)))) else out a)"
    by (rule ext) (rule foldl_cells)
  also have "\<dots> = (\<lambda>a. if \<exists>j<vd - 1. a = int (idx * (vd - 1)) + int j
          then (if slice_mass pd vd m t idx = 0 then Inl DivisionByZero
                else Inr (slice_value pd vd m t idx (nat (a - int (idx * (vd - 1))))
                           * (1 / slice_mass pd vd m t idx)))
          else out a)"
    by (rule ext) (auto simp: g_def reciprocal_def)
  finally show ?thesis .
qed

lemma out_cell_eq:
  fixes w :: nat
  assumes "j < w" "j' < w" "int (idx * w + j) = int (idx' * w) + int j'"
  shows "idx = idx' \<and> j = j'"
proof -
  have "idx * w + j = idx' * w + j'" using assms(3) by linarith
  moreover have "(idx * w + j) div w = idx" "(idx' * w + j') div w = idx'"
    using assms(1,2) by simp_all
  ultimately have "idx = idx'" by simp
  then show ?thesis using \<open>idx * w + j = idx' * w + j'\<close> by simp
qed

lemma slice_Suc:
  "slice pd vd (Suc n) m t out = slice_thread pd vd m t (slice pd vd n m t out) n"
  by (simp add: slice_def)

lemma slice_cells:
  "(\<forall>idx<n. \<forall>j<vd - 1. slice pd vd n m t out (int (idx * (vd - 1) + j)) =
       (if slice_mass pd vd m t idx = 0 then Inl DivisionByZero
        else Inr (slice_value pd vd m t idx j * (1 / slice_mass pd vd m t idx))))
   \<and> (\<forall>a. (\<forall>idx<n. \<forall>j<vd - 1. a \<noteq> int (idx * (vd - 1) + j)) \<longrightarrow> slice pd vd n m t out a = out a)"
proof (induction n)
  case 0
  show ?case by (simp add: slice_def)
next
  case (Suc n)
  define prev where "prev = slice pd vd n m t out"
  have ih1: "prev (int (idx * (vd - 1) + j)) =
       (if slice_mass pd vd m t idx = 0 then Inl DivisionByZero
        else Inr (slice_value pd vd m t idx j * (1 / slice_mass pd vd m t idx)))"
    if "idx < n" "j < vd - 1" for idx j
    using Suc.IH that unfolding prev_def by blast
  have ih2: "prev a = out a" if "\<forall>idx<n. \<forall>j<vd - 1. a \<noteq> int (idx * (vd - 1) + j)" for a
    using Suc.IH that unfolding prev_def by blast
  have cur: "slice pd vd (Suc n) m t out a =
     (if \<exists>j<vd - 1. a = int (n * (vd - 1)) + int j
          then (if slice_mass pd vd m t n = 0 then Inl DivisionByZero
                else Inr (slice_value pd vd m t n (nat (a - int (n * (vd - 1))))
                           * (1 / slice_mass pd vd m t n)))
          else prev a)" for a
    unfolding slice_Suc prev_def[symmetric] slice_thread_eq ..
  show ?case
  proof (intro conjI allI impI)
    fix idx j assume a: "idx < Suc n" "j < vd - 1"
    show "slice pd vd (Suc n) m t out (int (idx * (vd - 1) + j)) =
       (if slice_mass pd vd m t idx = 0 then Inl DivisionByZero
        else Inr (slice_value pd vd m t idx j * (1 / slice_mass pd vd m t idx)))"
    proof (cases "idx = n")
      case True
      have ex: "\<exists>j'<vd - 1. int (n * (vd - 1) + j) = int (n * (vd - 1)) + int j'"
        using a(2) by auto
      have nt: "nat (int (n * (vd - 1) + j) - int (n * (vd - 1))) = j" by simp
      show ?thesis unfolding True cur if_P[OF ex] nt ..
    next
      case False
      then have lt: "idx < n" using a(1) by simp
      have nex: "\<not> (\<exists>j'<vd - 1. int (idx * (vd - 1) + j) = int (n * (vd - 1)) + int j')"
        using out_cell_eq[OF a(2)] False by blast
      show ?thesis unfolding cur if_not_P[OF nex] by (rule ih1[OF lt a(2)])
    qed
  next
    fix a assume a: "\<forall>idx<Suc n. \<forall>j<vd - 1. a \<noteq> int (idx * (vd - 1) + j)"
    have nex: "\<not> (\<exists>j<vd - 1. a = int (n * (vd - 1)) + int j)"
    proof
      assume "\<exists>j<vd - 1. a = int (n * (vd - 1)) + int j"
      then obtain j where "j < vd - 1" "a = int (n * (vd - 1) + j)" by auto
      then show False using a by blast
    qed
    have "\<forall>idx<n. \<forall>j<vd - 1. a \<noteq> int (idx * (vd - 1) + j)" using a by simp
    then show "slice pd vd (Suc n) m t out a = out a"
      unfolding cur if_not_P[OF nex] by (rule ih2)
  qed
qed

lemma pair_sums:
  "slice_mass 1 2 matrix_pair table_pair 0 = 0"
  "slice_mass 1 2 matrix_pair table_pair 1 = 2"
  "slice_value 1 2 matrix_pair table_pair 1 0 = 6"
  by (simp_all add: slice_mass_def slice_value_def matrix_pair_def table_pair_def lessThan_Suc
      numeral_2_eq_2)

text \<open>
  Claim C10: the slice kernel has no zero-mass guard. For every sample \<open>idx < n\<close> and
  every channel the kernel writes the weighted value sum times the reciprocal of the
  weighted mass sum; where the mass sum is zero the quotient does not exist and the cell
  is marked, the other samples are written all the same, and no cell outside the samples
  is touched. The zero branch is reached: of two samples, the one whose vertex carries no
  mass is marked and the other one is written (\<open>6 / 2 = 3\<close>).
\<close>

theorem slice_divides_without_guard:
  "(\<forall>idx<n. \<forall>j<vd - 1. slice pd vd n m t out (int (idx * (vd - 1) + j)) =
       (if slice_mass pd vd m t idx = 0 then Inl DivisionByZero
        else Inr (slice_value pd vd m t idx j * (1 / slice_mass pd vd m t idx))))
   \<and> (\<forall>a. (\<forall>idx<n. \<forall>j<vd - 1. a \<noteq> int (idx * (vd - 1) + j)) \<longrightarrow> slice pd vd n m t out a = out a)
   \<and> slice_mass 1 2 matrix_pair table_pair 0 = 0
   \<and> slice 1 2 2 matrix_pair table_pair (\<lambda>_. Inr 0) 0 = Inl DivisionByZero
   \<and> slice 1 2 2 matrix_pair table_pair (\<lambda>_. Inr 0) 1 = Inr 3"
proof -
  note c = slice_cells[of 2 2 1 matrix_pair table_pair "\<lambda>_. Inr 0", THEN conjunct1, rule_format]
  have "slice 1 2 2 matrix_pair table_pair (\<lambda>_. Inr 0) 0 = Inl DivisionByZero"
    using c[of 0 0] pair_sums by simp
  moreover have "slice 1 2 2 matrix_pair table_pair (\<lambda>_. Inr 0) 1 = Inr 3"
    using c[of 1 0] pair_sums by simp
  ultimately show ?thesis
    using slice_cells[of n vd pd m t out] pair_sums(1) by simp
qed

theorem slice_divides_without_guard_witness:
  "slice_mass 1 2 matrix_pair table_pair 1 = 2
   \<and> slice_value 1 2 matrix_pair table_pair 1 0 = 6
   \<and> slice 1 2 2 matrix_pair table_pair (\<lambda>_. Inr 1) 1 = Inr 3
   \<and> slice 1 2 2 matrix_pair table_pair (\<lambda>_. Inr 1) 0 = Inl DivisionByZero
   \<and> slice 1 2 2 matrix_pair table_pair (\<lambda>_. Inr 1) 2 = Inr 1"
proof -
  note t = slice_divides_without_guard[of 2 2 1 matrix_pair table_pair "\<lambda>_. Inr 1"]
  note c = t[THEN conjunct1, rule_format]
  note o = t[THEN conjunct2, THEN conjunct1, rule_format]
  have "slice 1 2 2 matrix_pair table_pair (\<lambda>_. Inr 1) 1 = Inr 3"
    using c[of 1 0] pair_sums by simp
  moreover have "slice 1 2 2 matrix_pair table_pair (\<lambda>_. Inr 1) 0 = Inl DivisionByZero"
    using c[of 0 0] pair_sums by simp
  moreover have "slice 1 2 2 matrix_pair table_pair (\<lambda>_. Inr 1) 2 = Inr 1"
    by (rule o) (auto simp: less_Suc_eq numeral_2_eq_2)
  ultimately show ?thesis using pair_sums by simp
qed

section \<open>Constructor\<close>

text \<open>
  Claim C8 against the code: for \<open>n = 65535 * 256\<close> the constructor prints its message
  and goes on to build the lattice (the source comment says ``this should crash the
  program''); nothing is refused.
\<close>

theorem constructor_continues_past_grid_limit:
  "fst (new_PermutohedralLatticeGPU pd 16776960) =
     [''Not enough GPU memory (on x axis, you can change the code to use other grid dims)'']
   \<and> lattice_n (snd (new_PermutohedralLatticeGPU pd 16776960)) = 16776960
   \<and> lattice_hashTable (snd (new_PermutohedralLatticeGPU pd 16776960))
       = newHashTable (int (16776960 * (pd + 1)))"
  by (simp add: new_PermutohedralLatticeGPU_def BLOCK_SIZE_def)

section \<open>Blur\<close>

lemma fold_option_append:
  "fold_option f (xs @ ys) s = (case fold_option f xs s of None \<Rightarrow> None | Some s' \<Rightarrow> fold_option f ys s')"
  by (induction xs arbitrary: s) (auto split: option.splits)

lemma fold_option_snoc:
  "fold_option f (xs @ [x]) s = (case fold_option f xs s of None \<Rightarrow> None | Some s' \<Rightarrow> f s' x)"
  by (simp add: fold_option_append split: option.splits)

lemma fold_option_upt_Suc:
  "fold_option f [0..<Suc k] s = (case fold_option f [0..<k] s of None \<Rightarrow> None | Some s' \<Rightarrow> f s' k)"
  by (simp add: fold_option_snoc)

lemma vd_cell_neq:
  assumes "idx \<noteq> idx'" "i < vd" "i' < vd"
  shows "int vd * int idx + int i \<noteq> int vd * int idx' + int i'"
  using cell_index_neq[of "int idx" "int idx'" i vd i'] assms by (simp add: mult.commute)

lemma blur_write:
  "foldl (\<lambda>out i. out(int vd * int idx + int i := stencil vd table offNp offNm idx i)) nv [0..<vd] a =
     (if \<exists>i<vd. a = int vd * int idx + int i
      then stencil vd table offNp offNm idx (nat (a - int vd * int idx)) else nv a)"
  by (rule foldl_cells)

lemma blur_thread_skip:
  "index (m (int idx)) \<noteq> int idx \<Longrightarrow> blur_thread pd vd color table m nv idx = Some nv"
  by (simp add: blur_thread_def)

lemma blur_thread_Some:
  assumes "index (m (int idx)) = int idx"
    and "blur_thread pd vd color table m nv idx = Some nv'"
  shows "\<exists>offNp offNm.
      retrieve pd table (neighbour_plus pd color (slot_key pd table (int idx))) = Some offNp
      \<and> retrieve pd table (neighbour_minus pd color (slot_key pd table (int idx))) = Some offNm
      \<and> nv' = foldl (\<lambda>out i. out(int vd * int idx + int i := stencil vd table offNp offNm idx i)) nv [0..<vd]"
  using assms unfolding blur_thread_def stencil_def by (auto split: option.splits)

lemma blur_thread_cells:
  assumes "blur_thread pd vd color table m nv idx = Some nv'"
  shows "(index (m (int idx)) = int idx \<longrightarrow>
          (\<exists>offNp offNm.
            retrieve pd table (neighbour_plus pd color (slot_key pd table (int idx))) = Some offNp
            \<and> retrieve pd table (neighbour_minus pd color (slot_key pd table (int idx))) = Some offNm
            \<and> (\<forall>i<vd. nv' (int vd * int idx + int i) = stencil vd table offNp offNm idx i)))
       \<and> (index (m (int idx)) \<noteq> int idx \<longrightarrow> nv' = nv)
       \<and> (\<forall>idx' i. idx' \<noteq> idx \<and> i < vd \<longrightarrow> nv' (int vd * int idx' + int i) = nv (int vd * int idx' + int i))"
proof (cases "index (m (int idx)) = int idx")
  case False
  then show ?thesis using assms by (simp add: blur_thread_skip)
next
  case True
  from blur_thread_Some[OF True assms] obtain offNp offNm where
    r: "retrieve pd table (neighbour_plus pd color (slot_key pd table (int idx))) = Some offNp"
      "retrieve pd table (neighbour_minus pd color (slot_key pd table (int idx))) = Some offNm"
    and nv': "nv' = foldl (\<lambda>out i. out(int vd * int idx + int i := stencil vd table offNp offNm idx i)) nv [0..<vd]"
    by blast
  have own: "nv' (int vd * int idx + int i) = stencil vd table offNp offNm idx i" if "i < vd" for i
    unfolding nv' blur_write using that by auto
  have other: "nv' (int vd * int idx' + int i) = nv (int vd * int idx' + int i)"
    if "idx' \<noteq> idx" "i < vd" for idx' i
    unfolding nv' blur_write using vd_cell_neq[OF that(1) that(2)] by auto
  show ?thesis using True r own other by blast
qed

lemma blur_cells:
  assumes "blur pd vd k color table m nv = Some nv'"
  shows "\<forall>idx<k.
          (index (m (int idx)) = int idx \<longrightarrow>
            (\<exists>offNp offNm.
              retrieve pd table (neighbour_plus pd color (slot_key pd table (int idx))) = Some offNp
              \<and> retrieve pd table (neighbour_minus pd color (slot_key pd table (int idx))) = Some offNm
              \<and> (\<forall>i<vd. nv' (int vd * int idx + int i) = stencil vd table offNp offNm idx i)))
          \<and> (index (m (int idx)) \<noteq> int idx \<longrightarrow>
               (\<forall>i<vd. nv' (int vd * int idx + int i) = nv (int vd * int idx + int i)))"
    and "\<forall>idx i. k \<le> idx \<and> i < vd \<longrightarrow> nv' (int vd * int idx + int i) = nv (int vd * int idx + int i)"
  using assms
proof (induction k arbitrary: nv')
  case 0
  {
    case 1
    show ?case by simp
  next
    case 2
    then show ?case by (simp add: blur_def)
  }
next
  case (Suc k)
  {
    case 1
    from 1 obtain mid where mid: "blur pd vd k color table m nv = Some mid"
      and last: "blur_thread pd vd color table m mid k = Some nv'"
      by (auto simp: blur_def fold_option_snoc split: option.splits)
    note ih = Suc.IH(1)[OF mid] Suc.IH(2)[OF mid]
    note th = blur_thread_cells[OF last]
    show ?case
    proof (intro allI impI)
      fix idx assume "idx < Suc k"
      then consider "idx < k" | "idx = k" by linarith
      then show "(index (m (int idx)) = int idx \<longrightarrow>
            (\<exists>offNp offNm.
              retrieve pd table (neighbour_plus pd color (slot_key pd table (int idx))) = Some offNp
              \<and> retrieve pd table (neighbour_minus pd color (slot_key pd table (int idx))) = Some offNm
              \<and> (\<forall>i<vd. nv' (int vd * int idx + int i) = stencil vd table offNp offNm idx i)))
          \<and> (index (m (int idx)) \<noteq> int idx \<longrightarrow>
               (\<forall>i<vd. nv' (int vd * int idx + int i) = nv (int vd * int idx + int i)))"
      proof cases
        case 1
        then have ne: "idx \<noteq> k" by simp
        have same: "\<forall>i<vd. nv' (int vd * int idx + int i) = mid (int vd * int idx + int i)"
          using th ne by blast
        show ?thesis using ih(1) 1 same by auto
      next
        case 2
        have "\<forall>i<vd. mid (int vd * int idx + int i) = nv (int vd * int idx + int i)"
          using ih(2) 2 by auto
        then show ?thesis using th 2 by auto
      qed
    qed
  next
    case 2
    from 2 obtain mid where mid: "blur pd vd k color table m nv = Some mid"
      and last: "blur_thread pd vd color table m mid k = Some nv'"
      by (auto simp: blur_def fold_option_snoc split: option.splits)
    note ih = Suc.IH(2)[OF mid]
    note th = blur_thread_cells[OF last]
    show ?case
    proof (intro allI impI)
      fix idx i assume a: "Suc k \<le> idx \<and> i < vd"
      then have "nv' (int vd * int idx + int i) = mid (int vd * int idx + int i)"
        using th by auto
      also have "\<dots> = nv (int vd * int idx + int i)" using ih a by auto
      finally show "nv' (int vd * int idx + int i) = nv (int vd * int idx + int i)" .
    qed
  }
qed

lemma retrieve_returns:
  assumes "0 < capacity t" "2 * capacity t < 2 ^ 31"
    and "\<exists>b. in_table t b \<and> entries t b = - 1"
  shows "\<exists>r. retrieve pd t key = Some r"
proof -
  from assms(3) obtain b where "in_table t b" "retrieve_stops pd t key b"
    by (auto simp: retrieve_stops_def)
  from retrieve_stop_reached[OF assms(1,2) this] show ?thesis by blast
qed

lemma blur_thread_returns:
  assumes "0 < capacity t" "2 * capacity t < 2 ^ 31"
    and "\<exists>b. in_table t b \<and> entries t b = - 1"
  shows "\<exists>r. blur_thread pd vd color t m nv idx = Some r"
proof -
  from retrieve_returns[OF assms] obtain a where
    "retrieve pd t (neighbour_plus pd color (slot_key pd t (int idx))) = Some a" by blast
  moreover from retrieve_returns[OF assms] obtain b where
    "retrieve pd t (neighbour_minus pd color (slot_key pd t (int idx))) = Some b" by blast
  ultimately show ?thesis by (simp add: blur_thread_def)
qed

lemma blur_returns:
  assumes "0 < capacity t" "2 * capacity t < 2 ^ 31"
    and "\<exists>b. in_table t b \<and> entries t b = - 1"
  shows "\<exists>r. blur pd vd k color t m nv = Some r"
proof (induction k)
  case 0
  show ?case by (simp add: blur_def)
next
  case (Suc k)
  then obtain mid where "blur pd vd k color t m nv = Some mid" by blast
  moreover from blur_thread_returns[OF assms] obtain r where
    "blur_thread pd vd color t m mid k = Some r" by blast
  ultimately show ?case by (simp add: blur_def fold_option_snoc)
qed

lemma neighbour_plus_nth:
  assumes "i < length key"
  shows "neighbour_plus pd color key ! i =
     (if i = color then key ! i + 1 - word_of_int (int pd + 1) else key ! i + 1)"
  using assms by (simp add: neighbour_plus_def Let_def nth_append nth_list_update)

lemma neighbour_minus_nth:
  assumes "i < length key"
  shows "neighbour_minus pd color key ! i =
     (if i = color then key ! i - 1 + word_of_int (int pd + 1) else key ! i - 1)"
  using assms by (simp add: neighbour_minus_def Let_def nth_append nth_list_update)

lemma slot_key_nth: "i < pd \<Longrightarrow> slot_key pd t e ! i = keys t (e * int pd + int i)"
  by (simp add: slot_key_def)

lemma slot_key_length: "length (slot_key pd t e) = pd"
  by (simp add: slot_key_def)

lemma blur_round_Some:
  assumes "blur_round pd vd n m (table, newVals) color = Some (table', newVals')"
  shows "newVals' = values_mem table" "table' = table\<lparr>values_mem := values_mem table'\<rparr>"
    "blur pd vd (n * (pd + 1)) color table m newVals = Some (values_mem table')"
  using assms by (auto simp: blur_round_def split: option.splits)

text \<open>
  Claim C2: one blur round with colour \<open>c\<close>. For every occupied vertex
  (\<open>matrix[idx].index = idx\<close>) the two neighbour keys along axis \<open>c\<close> are computed and
  looked up, a missing neighbour (\<open>retrieve\<close> returns \<open>-1\<close>) counts as the zero vector,
  and \<open>0.25*next + 0.5*self + 0.25*prev\<close> is written to the output buffer; the table's
  own values are only read. After the round the two buffers are swapped. The round
  returns whenever the table has an empty bucket.
\<close>

theorem blur_round_stencil_and_swap:
  "((0 < capacity table \<and> 2 * capacity table < 2 ^ 31 \<and> (\<exists>b. in_table table b \<and> entries table b = - 1)) \<longrightarrow>
      (\<exists>r. blur_round pd vd n m (table, newVals) color = Some r))
   \<and> (\<forall>table' newVals'. blur_round pd vd n m (table, newVals) color = Some (table', newVals') \<longrightarrow>
        newVals' = values_mem table
        \<and> capacity table' = capacity table \<and> keys table' = keys table \<and> entries table' = entries table
        \<and> (\<forall>idx<n * (pd + 1).
             (index (m (int idx)) = int idx \<longrightarrow>
                (\<exists>offNp offNm.
                   retrieve pd table (neighbour_plus pd color (slot_key pd table (int idx))) = Some offNp
                   \<and> retrieve pd table (neighbour_minus pd color (slot_key pd table (int idx))) = Some offNm
                   \<and> (\<forall>i<pd. neighbour_plus pd color (slot_key pd table (int idx)) ! i =
                          (if i = color then keys table (int idx * int pd + int i) + 1 - word_of_int (int pd + 1)
                           else keys table (int idx * int pd + int i) + 1)
                        \<and> neighbour_minus pd color (slot_key pd table (int idx)) ! i =
                          (if i = color then keys table (int idx * int pd + int i) - 1 + word_of_int (int pd + 1)
                           else keys table (int idx * int pd + int i) - 1))
                   \<and> (\<forall>i<vd. values_mem table' (int vd * int idx + int i) =
                          0.25 * (if offNp \<ge> 0 then values_mem table (int vd * offNp + int i) else 0)
                          + 0.5 * values_mem table (int vd * int idx + int i)
                          + 0.25 * (if offNm \<ge> 0 then values_mem table (int vd * offNm + int i) else 0))))
             \<and> (index (m (int idx)) \<noteq> int idx \<longrightarrow>
                  (\<forall>i<vd. values_mem table' (int vd * int idx + int i) = newVals (int vd * int idx + int i)))))"
proof (intro conjI impI allI)
  assume a: "0 < capacity table \<and> 2 * capacity table < 2 ^ 31 \<and> (\<exists>b. in_table table b \<and> entries table b = - 1)"
  then obtain r where "blur pd vd (n * (pd + 1)) color table m newVals = Some r"
    using blur_returns[of table pd vd "n * (pd + 1)" color m newVals] by blast
  then show "\<exists>r. blur_round pd vd n m (table, newVals) color = Some r"
    by (simp add: blur_round_def)
next
  fix table' newVals'
  assume b: "blur_round pd vd n m (table, newVals) color = Some (table', newVals')"
  note s = blur_round_Some[OF b]
  show "newVals' = values_mem table" by (rule s(1))
  show "capacity table' = capacity table" by (subst s(2)) simp
  show "keys table' = keys table" by (subst s(2)) simp
  show "entries table' = entries table" by (subst s(2)) simp
  fix idx assume idx: "idx < n * (pd + 1)"
  note c = blur_cells(1)[OF s(3), rule_format, OF idx]
  {
    assume occ: "index (m (int idx)) = int idx"
    with c obtain offNp offNm where
      r: "retrieve pd table (neighbour_plus pd color (slot_key pd table (int idx))) = Some offNp"
         "retrieve pd table (neighbour_minus pd color (slot_key pd table (int idx))) = Some offNm"
      and v: "\<forall>i<vd. values_mem table' (int vd * int idx + int i) = stencil vd table offNp offNm idx i"
      by blast
    have k: "\<forall>i<pd. neighbour_plus pd color (slot_key pd table (int idx)) ! i =
                          (if i = color then keys table (int idx * int pd + int i) + 1 - word_of_int (int pd + 1)
                           else keys table (int idx * int pd + int i) + 1)
                        \<and> neighbour_minus pd color (slot_key pd table (int idx)) ! i =
                          (if i = color then keys table (int idx * int pd + int i) - 1 + word_of_int (int pd + 1)
                           else keys table (int idx * int pd + int i) - 1)"
      by (simp add: neighbour_plus_nth neighbour_minus_nth slot_key_length slot_key_nth)
    have v': "\<forall>i<vd. values_mem table' (int vd * int idx + int i) =
                          0.25 * (if offNp \<ge> 0 then values_mem table (int vd * offNp + int i) else 0)
                          + 0.5 * values_mem table (int vd * int idx + int i)
                          + 0.25 * (if offNm \<ge> 0 then values_mem table (int vd * offNm + int i) else 0)"
      using v by (simp add: stencil_def neighbour_value_def)
    show "\<exists>offNp offNm.
                   retrieve pd table (neighbour_plus pd color (slot_key pd table (int idx))) = Some offNp
                   \<and> retrieve pd table (neighbour_minus pd color (slot_key pd table (int idx))) = Some offNm
                   \<and> (\<forall>i<pd. neighbour_plus pd color (slot_key pd table (int idx)) ! i =
                          (if i = color then keys table (int idx * int pd + int i) + 1 - word_of_int (int pd + 1)
                           else keys table (int idx * int pd + int i) + 1)
                        \<and> neighbour_minus pd color (slot_key pd table (int idx)) ! i =
                          (if i = color then keys table (int idx * int pd + int i) - 1 + word_of_int (int pd + 1)
                           else keys table (int idx * int pd + int i) - 1))
                   \<and> (\<forall>i<vd. values_mem table' (int vd * int idx + int i) =
                          0.25 * (if offNp \<ge> 0 then values_mem table (int vd * offNp + int i) else 0)
                          + 0.5 * values_mem table (int vd * int idx + int i)
                          + 0.25 * (if offNm \<ge> 0 then values_mem table (int vd * offNm + int i) else 0))"
      using r k v' by blast
  }
  {
    fix i assume "index (m (int idx)) \<noteq> int idx" "i < vd"
    then show "values_mem table' (int vd * int idx + int i) = newVals (int vd * int idx + int i)"
      using c by blast
  }
qed

lemma table_blur_keys:
  "neighbour_plus (Suc 0) 0 (slot_key (Suc 0) table_blur 0) = [0, 0]"
  "neighbour_minus (Suc 0) 0 (slot_key (Suc 0) table_blur 0) = [2, 0]"
  by (simp_all add: neighbour_plus_def neighbour_minus_def slot_key_def table_blur_def)

lemma hash_1_Cons: "hash (Suc 0) (x # xs) = scast x * 2531011"
  by (simp add: hash_def)

lemma table_blur_retrieve:
  "retrieve (Suc 0) table_blur [0, 0] = Some (- 1)"
  "retrieve (Suc 0) table_blur [2, 0] = Some (- 1)"
  by (simp_all add: retrieve_def retrieve_loop.simps hash_1_Cons modHash_def table_blur_def)

theorem blur_round_stencil_and_swap_witness:
  "\<exists>t' nv'. blur_round 1 1 1 zero_matrix (table_blur, const_mem 0) 0 = Some (t', nv')
     \<and> nv' = values_mem table_blur \<and> values_mem t' 0 = 4 \<and> values_mem t' 1 = 0"
proof -
  note t = blur_round_stencil_and_swap[of table_blur 1 1 1 zero_matrix "const_mem 0" 0]
  have e: "\<exists>b. in_table table_blur b \<and> entries table_blur b = - 1"
    by (rule exI[of _ 0]) (simp add: in_table_def table_blur_def)
  have c: "0 < capacity table_blur" "2 * capacity table_blur < 2 ^ 31"
    by (simp_all add: table_blur_def)
  from t[THEN conjunct1] c e
  obtain r where "blur_round 1 1 1 zero_matrix (table_blur, const_mem 0) 0 = Some r"
    by blast
  then obtain t' nv' where
    r: "blur_round 1 1 1 zero_matrix (table_blur, const_mem 0) 0 = Some (t', nv')"
    by (cases r) auto
  note u = t[THEN conjunct2, rule_format, OF r]
  have nv: "nv' = values_mem table_blur" using u by (rule conjunct1)
  note cells = u[THEN conjunct2, THEN conjunct2, THEN conjunct2, THEN conjunct2, rule_format]
  have z: "index (zero_matrix (int 0)) = int 0" "(0::nat) < 1 * (1 + 1)"
    by (simp_all add: zero_matrix_def)
  from cells[OF z(2), THEN conjunct1, rule_format, OF z(1)] obtain offNp offNm where
    o: "retrieve 1 table_blur (neighbour_plus 1 0 (slot_key 1 table_blur (int 0))) = Some offNp"
       "retrieve 1 table_blur (neighbour_minus 1 0 (slot_key 1 table_blur (int 0))) = Some offNm"
    and v: "\<forall>i<1. values_mem t' (int 1 * int 0 + int i) =
                          0.25 * (if offNp \<ge> 0 then values_mem table_blur (int 1 * offNp + int i) else 0)
                          + 0.5 * values_mem table_blur (int 1 * int 0 + int i)
                          + 0.25 * (if offNm \<ge> 0 then values_mem table_blur (int 1 * offNm + int i) else 0)"
    by blast
  have "offNp = - 1" "offNm = - 1" using o table_blur_retrieve table_blur_keys by simp_all
  then have v0: "values_mem t' 0 = 4"
    using v[rule_format, of 0] by (simp add: table_blur_def)
  have z1: "index (zero_matrix (int 1)) \<noteq> int 1" "(1::nat) < 1 * (1 + 1)"
    by (simp_all add: zero_matrix_def)
  from cells[OF z1(2), THEN conjunct2, rule_format, OF z1(1), of 0]
  have v1: "values_mem t' 1 = 0" by (simp add: const_mem_def)
  show ?thesis using r nv v0 v1 by blast
qed

section \<open>Rank and the correction of the sum\<close>

lemma foldl_fun_upd_const:
  "foldl (\<lambda>f i. f(i := g i)) f0 [0..<k] = (\<lambda>i. if i < k then g i else f0 i)"
proof (induction k)
  case 0
  show ?case by simp
next
  case (Suc k)
  have "foldl (\<lambda>f i. f(i := g i)) f0 [0..<Suc k] = (foldl (\<lambda>f i. f(i := g i)) f0 [0..<k])(k := g k)"
    by simp
  also have "\<dots> = (\<lambda>i. if i < Suc k then g i else f0 i)"
    unfolding Suc.IH by (auto simp: fun_eq_iff)
  finally show ?case .
qed

lemma rank_init_eq:
  "rank_init pd el rem0 i =
     (if i \<le> pd
      then int (length (filter (\<lambda>j. resid el rem0 i < resid el rem0 j
                 \<or> (resid el rem0 i = resid el rem0 j \<and> i > j)) [0..<Suc pd]))
      else 0)"
  unfolding rank_init_def foldl_fun_upd_const resid_def by (simp add: less_Suc_eq_le)

lemma fix_fold:
  "foldl (fix_step pd s) (rem0, rank) [0..<k] =
     (\<lambda>i. if i < k then fix_rem0 pd s rem0 rank i else rem0 i,
      \<lambda>i. if i < k then fix_rank pd s rank i else rank i)"
proof (induction k)
  case 0
  show ?case by simp
next
  case (Suc k)
  have "foldl (fix_step pd s) (rem0, rank) [0..<Suc k] =
      fix_step pd s (foldl (fix_step pd s) (rem0, rank) [0..<k]) k"
    by simp
  also have "\<dots> = (\<lambda>i. if i < Suc k then fix_rem0 pd s rem0 rank i else rem0 i,
      \<lambda>i. if i < Suc k then fix_rank pd s rank i else rank i)"
    unfolding Suc.IH by (auto simp: fix_step_def fix_rem0_def fix_rank_def fun_eq_iff less_Suc_eq)
  finally show ?case .
qed

lemma fix_sum_eq:
  "fix_sum pd s (rem0, rank) =
     (\<lambda>i. if i \<le> pd then fix_rem0 pd s rem0 rank i else rem0 i,
      \<lambda>i. if i \<le> pd then fix_rank pd s rank i else rank i)"
  unfolding fix_sum_def fix_fold by (simp add: less_Suc_eq_le)

lemma rank_init_range:
  assumes "i \<le> pd"
  shows "0 \<le> rank_init pd el rem0 i" "rank_init pd el rem0 i \<le> int pd"
proof -
  let ?P = "\<lambda>j. resid el rem0 i < resid el rem0 j \<or> (resid el rem0 i = resid el rem0 j \<and> i > j)"
  show "0 \<le> rank_init pd el rem0 i" by (simp add: rank_init_eq)
  have "i \<in> set [0..<Suc pd]" using assms by auto
  moreover have "\<not> ?P i" by simp
  ultimately have "length (filter ?P [0..<Suc pd]) < length [0..<Suc pd]"
    by (rule length_filter_less)
  then have "length (filter ?P [0..<Suc pd]) \<le> pd" by simp
  then show "rank_init pd el rem0 i \<le> int pd"
    unfolding rank_init_eq using assms by simp
qed

lemma fix_rank_range:
  assumes "0 \<le> rank i" "rank i \<le> int pd" "- (int pd + 1) \<le> s" "s \<le> int pd + 1"
  shows "0 \<le> fix_rank pd s rank i \<and> fix_rank pd s rank i \<le> int pd"
  using assms by (auto simp: fix_rank_def)

section \<open>The size of the sum\<close>

lemma tdiv_mult_le:
  assumes "0 < b"
  shows "\<bar>tdiv a b\<bar> * b \<le> \<bar>a\<bar>"
proof -
  have "\<bar>tdiv a b\<bar> = \<bar>sgn a\<bar> * (\<bar>a\<bar> div b)"
    using assms div_le_abs(1)[OF assms, of a] by (simp add: tdiv_def abs_mult)
  also have "\<dots> \<le> 1 * (\<bar>a\<bar> div b)"
    using div_le_abs(1)[OF assms, of a] by (intro mult_right_mono) (simp_all add: abs_sgn_eq)
  finally have "\<bar>tdiv a b\<bar> \<le> \<bar>a\<bar> div b" by simp
  then have "\<bar>tdiv a b\<bar> * b \<le> (\<bar>a\<bar> div b) * b"
    using assms by (intro mult_right_mono) simp_all
  also have "\<dots> \<le> \<bar>a\<bar>"
    using assms by (metis abs_ge_zero add.commute le_add_same_cancel2 mult.commute mult_div_mod_eq pos_mod_sign)
  finally show ?thesis .
qed

lemma rounded_sum_bound:
  assumes v: "valid_position pd p sf"
  shows "\<bar>real_of_int (\<Sum>i\<le>pd. round_coord pd (elevate pd p sf i))\<bar> \<le> real (pd + 1) * (real (pd + 1) / 2)"
proof -
  let ?el = "elevate pd p sf"
  have eq: "real_of_int (round_coord pd (?el i)) = nearest pd (?el i)" if "i \<le> pd" for i
    using v that by (intro round_coord_eq) (simp_all add: valid_position_def)
  have "real_of_int (\<Sum>i\<le>pd. round_coord pd (?el i)) = (\<Sum>i\<le>pd. nearest pd (?el i))"
    by (simp add: eq)
  also have "\<dots> = (\<Sum>i\<le>pd. nearest pd (?el i)) - (\<Sum>i\<le>pd. ?el i)"
    by (simp add: elevate_sum_zero)
  also have "\<dots> = (\<Sum>i\<le>pd. nearest pd (?el i) - ?el i)"
    by (simp add: sum_subtractf)
  finally have "\<bar>real_of_int (\<Sum>i\<le>pd. round_coord pd (?el i))\<bar> = \<bar>\<Sum>i\<le>pd. nearest pd (?el i) - ?el i\<bar>"
    by simp
  also have "\<dots> \<le> (\<Sum>i\<le>pd. \<bar>nearest pd (?el i) - ?el i\<bar>)" by (rule sum_abs)
  also have "\<dots> \<le> (\<Sum>i\<le>pd. real (pd + 1) / 2)"
    using nearest_close by (intro sum_mono) (simp add: abs_minus_commute)
  also have "\<dots> = real (pd + 1) * (real (pd + 1) / 2)" by simp
  finally show ?thesis .
qed

lemma rounded_sum_short:
  assumes v: "valid_position pd p sf"
  shows "sint (word_of_int (\<Sum>i\<le>pd. round_coord pd (elevate pd p sf i)) :: short)
     = (\<Sum>i\<le>pd. round_coord pd (elevate pd p sf i))"
proof -
  have pd: "real (pd + 1) \<le> 255" using v by (simp add: valid_position_def)
  then have "real (pd + 1) * (real (pd + 1) / 2) \<le> 255 * (255 / 2)"
    by (intro mult_mono) simp_all
  with rounded_sum_bound[OF v]
  have "\<bar>real_of_int (\<Sum>i\<le>pd. round_coord pd (elevate pd p sf i))\<bar> \<le> 32767" by linarith
  then have "\<bar>\<Sum>i\<le>pd. round_coord pd (elevate pd p sf i)\<bar> \<le> 32767" by linarith
  then show ?thesis by (intro sint_short_of_int) linarith+
qed

lemma round_all_sum_valid:
  assumes v: "valid_position pd p sf"
  shows "sint (snd (round_all pd (elevate pd p sf))) =
     tdiv (\<Sum>i\<le>pd. round_coord pd (elevate pd p sf i)) (int pd + 1)"
proof -
  define W :: short where "W = word_of_int (\<Sum>i\<le>pd. round_coord pd (elevate pd p sf i))"
  have "sint (snd (round_all pd (elevate pd p sf))) = sint (word_of_int (tdiv (sint W) (int pd + 1)) :: short)"
    unfolding W_def by (simp only: round_all_sum)
  also have "\<dots> = tdiv (sint W) (int pd + 1)"
    by (rule tdiv_short) simp
  also have "sint W = (\<Sum>i\<le>pd. round_coord pd (elevate pd p sf i))"
    unfolding W_def by (rule rounded_sum_short[OF v])
  finally show ?thesis .
qed

lemma sum_bound:
  assumes v: "valid_position pd p sf"
  shows "\<bar>sint (snd (round_all pd (elevate pd p sf)))\<bar> \<le> int pd + 1"
proof -
  define S where "S = (\<Sum>i\<le>pd. round_coord pd (elevate pd p sf i))"
  define m where "m = real (pd + 1)"
  define t where "t = real_of_int \<bar>tdiv S (int pd + 1)\<bar>"
  have m: "0 < m" by (simp add: m_def)
  have "\<bar>tdiv S (int pd + 1)\<bar> * (int pd + 1) \<le> \<bar>S\<bar>" by (rule tdiv_mult_le) simp
  then have "real_of_int (\<bar>tdiv S (int pd + 1)\<bar> * (int pd + 1)) \<le> real_of_int \<bar>S\<bar>"
    by (simp only: of_int_le_iff)
  then have "t * m \<le> real_of_int \<bar>S\<bar>" by (simp add: t_def m_def add.commute)
  also have "\<dots> \<le> m * (m / 2)"
    using rounded_sum_bound[OF v] by (simp add: S_def m_def)
  also have "\<dots> = (m / 2) * m" by simp
  finally have "t \<le> m / 2" using m by (rule mult_right_le_imp_le)
  then have "t \<le> m" using m by linarith
  then have "real_of_int \<bar>tdiv S (int pd + 1)\<bar> \<le> real_of_int (int pd + 1)"
    by (simp add: t_def m_def)
  then have "\<bar>tdiv S (int pd + 1)\<bar> \<le> int pd + 1" by (simp only: of_int_le_iff)
  then show ?thesis unfolding round_all_sum_valid[OF v] S_def .
qed

section \<open>Barycentric weights\<close>

lemma lattice_point_eq:
  "lattice_point pd p sf =
     (lattice_rem0 pd p sf, lattice_rank pd p sf,
      barycentric pd (elevate pd p sf) (lattice_rem0 pd p sf) (lattice_rank pd p sf))"
  by (simp add: lattice_point_def lattice_rem0_def lattice_rank_def Let_def split: prod.splits)


lemma lattice_rank_eq:
  "lattice_rank pd p sf i =
     (if i \<le> pd
      then fix_rank pd (sint (snd (round_all pd (elevate pd p sf))))
             (rank_init pd (elevate pd p sf) (fst (round_all pd (elevate pd p sf)))) i
      else rank_init pd (elevate pd p sf) (fst (round_all pd (elevate pd p sf))) i)"
  by (simp add: lattice_rank_def lattice_point_def Let_def fix_sum_eq split: prod.splits)

lemma lattice_weight_eq:
  "lattice_weight pd p sf r =
     barycentric pd (elevate pd p sf) (lattice_rem0 pd p sf) (lattice_rank pd p sf) (int r)"
  by (simp add: lattice_weight_def lattice_point_eq)

lemma lattice_rank_range:
  assumes "valid_position pd p sf" "i \<le> pd"
  shows "0 \<le> lattice_rank pd p sf i \<and> lattice_rank pd p sf i \<le> int pd"
proof -
  have "\<bar>sint (snd (round_all pd (elevate pd p sf)))\<bar> \<le> int pd + 1"
    by (rule sum_bound[OF assms(1)])
  then have s: "- (int pd + 1) \<le> sint (snd (round_all pd (elevate pd p sf)))"
    "sint (snd (round_all pd (elevate pd p sf))) \<le> int pd + 1"
    by linarith+
  note r = rank_init_range[OF assms(2), of "elevate pd p sf" "fst (round_all pd (elevate pd p sf))"]
  show ?thesis
    unfolding lattice_rank_eq
    using assms(2)
      fix_rank_range[where rank = "rank_init pd (elevate pd p sf) (fst (round_all pd (elevate pd p sf)))"
        and i = i and pd = pd, OF r s]
    by simp
qed

lemma sum_fun_upd:
  fixes f :: "int \<Rightarrow> real"
  assumes "finite S" "x \<in> S"
  shows "sum (f(x := v)) S = sum f S - f x + v"
proof -
  have "sum (f(x := v)) S = sum (f(x := v)) (S - {x}) + (f(x := v)) x"
    using assms by (simp add: sum.remove)
  also have "sum (f(x := v)) (S - {x}) = sum f (S - {x})"
    by (intro sum.cong refl) simp
  also have "sum f (S - {x}) = sum f S - f x"
    using assms by (simp add: sum.remove)
  finally show ?thesis by simp
qed

lemma bary_step_total:
  assumes "0 \<le> rank i" "rank i \<le> int pd"
  shows "sum (bary_step pd el rem0 rank b i) {0..int pd + 1} = sum b {0..int pd + 1}"
proof -
  define delta where "delta = (el i - real_of_int (rem0 i)) * (1 / real (pd + 1))"
  define b1 where "b1 = b(int pd - rank i := b (int pd - rank i) + delta)"
  have x: "int pd - rank i \<in> {0..int pd + 1}" and y: "int pd + 1 - rank i \<in> {0..int pd + 1}"
    using assms by auto
  have "bary_step pd el rem0 rank b i = b1(int pd + 1 - rank i := b1 (int pd + 1 - rank i) - delta)"
    by (simp add: bary_step_def Let_def delta_def b1_def)
  then have "sum (bary_step pd el rem0 rank b i) {0..int pd + 1} = sum b1 {0..int pd + 1} - delta"
    using sum_fun_upd[OF _ y, of b1] by simp
  also have "sum b1 {0..int pd + 1} = sum b {0..int pd + 1} + delta"
    unfolding b1_def using sum_fun_upd[OF _ x, of b] by simp
  finally show ?thesis by simp
qed

lemma bary_fold_total:
  assumes "\<forall>i<k. 0 \<le> rank i \<and> rank i \<le> int pd"
  shows "sum (foldl (bary_step pd el rem0 rank) b0 [0..<k]) {0..int pd + 1} = sum b0 {0..int pd + 1}"
  using assms
proof (induction k)
  case 0
  show ?case by simp
next
  case (Suc k)
  have "sum (foldl (bary_step pd el rem0 rank) b0 [0..<Suc k]) {0..int pd + 1}
      = sum (bary_step pd el rem0 rank (foldl (bary_step pd el rem0 rank) b0 [0..<k]) k) {0..int pd + 1}"
    by simp
  also have "\<dots> = sum (foldl (bary_step pd el rem0 rank) b0 [0..<k]) {0..int pd + 1}"
    using Suc.prems by (intro bary_step_total) simp_all
  also have "\<dots> = sum b0 {0..int pd + 1}"
    using Suc.prems by (intro Suc.IH) simp
  finally show ?case .
qed

lemma barycentric_total:
  assumes "\<forall>i\<le>pd. 0 \<le> rank i \<and> rank i \<le> int pd"
  shows "sum (barycentric pd el rem0 rank) {0..int pd} = 1"
proof -
  define b where "b = foldl (bary_step pd el rem0 rank) (\<lambda>_. 0) [0..<Suc pd]"
  have tot: "sum b {0..int pd + 1} = 0"
    unfolding b_def using assms by (subst bary_fold_total) (simp_all add: less_Suc_eq_le)
  have split: "{0..int pd + 1} = insert (int pd + 1) {0..int pd}" by auto
  have tot': "sum b {0..int pd} + b (int pd + 1) = 0"
    using tot unfolding split by (subst (asm) sum.insert) simp_all
  have "barycentric pd el rem0 rank = b(0 := b 0 + (1 + b (int pd + 1)))"
    by (simp add: barycentric_def Let_def b_def)
  then have "sum (barycentric pd el rem0 rank) {0..int pd} = sum b {0..int pd} - b 0 + (b 0 + (1 + b (int pd + 1)))"
    using sum_fun_upd[of "{0..int pd}" 0 b] by simp
  then show ?thesis using tot' by simp
qed

lemma sum_int_reindex:
  fixes f :: "int \<Rightarrow> real"
  shows "(\<Sum>r\<le>pd. f (int r)) = sum f {0..int pd}"
proof -
  have "{0..int pd} = int ` {..pd}"
    by (auto simp: image_iff intro: exI[of _ "nat _"]) (metis atMost_iff nat_le_iff nat_0_le)
  then show ?thesis by (simp add: sum.reindex)
qed

lemma lattice_weights_sum:
  assumes "valid_position pd p sf"
  shows "(\<Sum>r\<le>pd. lattice_weight pd p sf r) = 1"
  unfolding lattice_weight_eq sum_int_reindex
  using lattice_rank_range[OF assms] by (intro barycentric_total) blast

text \<open>
  Claim C3: for every valid position the \<open>pd+1\<close> barycentric weights that createLattice
  pairs with the simplex corners (\<open>barycentric[0..pd]\<close> after the fold of slot \<open>pd+1\<close>
  into slot 0) sum to exactly 1 in exact arithmetic.
\<close>

theorem barycentric_weights_sum_to_one:
  assumes "valid_position pd position scaleFactor"
  shows "(\<Sum>r\<le>pd. lattice_weight pd position scaleFactor r) = 1"
  using assms by (rule lattice_weights_sum)

lemma unit_vector_valid: "valid_position 1 unit_vector unit_vector"
  unfolding valid_position_def using unit_in_range by simp

theorem barycentric_weights_sum_to_one_witness:
  "valid_position 1 unit_vector unit_vector
   \<and> (\<Sum>r\<le>1. lattice_weight 1 unit_vector unit_vector r) = 1"
  using unit_vector_valid barycentric_weights_sum_to_one[OF unit_vector_valid] by simp

section \<open>The rank is a permutation that sorts the residuals\<close>









section \<open>After the correction of the sum\<close>







section \<open>The barycentric weights are not negative\<close>











section \<open>The table invariant of the sequential createLattice\<close>

lemma slot_key_eq_iff:
  assumes "length key = pd"
  shows "slot_key pd t c = key \<longleftrightarrow> key_match pd (keys t) c key"
  using assms by (auto simp: slot_key_def key_match_iff list_eq_iff_nth_eq)
















section \<open>cleanHashTable changes nothing in a sequential run\<close>




section \<open>A constant field through splat, blur and slice\<close>

section \<open>splatCache: loading a block into shared memory\<close>







section \<open>splatCache: the scan of one thread over its block\<close>






section \<open>splatCache: the store of one thread into the table\<close>







section \<open>splatCache: the stores of one block\<close>


section \<open>splatCache: one block\<close>


section \<open>splatCache: all blocks and all colours\<close>






section \<open>blur under a constant field\<close>









section \<open>slice under a constant field\<close>



section \<open>The whole filter on a constant field\<close>












section \<open>The coalescing pass on a table with duplicate keys\<close>

lemma slot_key_keys: "keys u = keys t \<Longrightarrow> slot_key pd u e = slot_key pd t e"
  by (simp add: slot_key_def)

lemma first_hit_unique:
  assumes "first_hit pd t key k" "first_hit pd t key k'"
  shows "k = k'"
proof (rule ccontr)
  assume "k \<noteq> k'"
  then consider "k < k'" | "k' < k" by linarith
  then show False
    using assms unfolding first_hit_def by cases blast+
qed

lemma start_in_table:
  assumes "0 < capacity t" "2 * capacity t < 2 ^ 31"
  shows "in_table t (probe (capacity t) (modHash (capacity t) w) k)"
  unfolding in_table_def by (rule probe_in_table) (rule modHash_in_table[OF assms])+

lemma own_first_hit:
  assumes cap: "0 < capacity t" "2 * capacity t < 2 ^ 31" and st: "settled pd t"
    and b: "in_table t b" "0 \<le> entries t b"
  shows "\<exists>k. first_hit pd t (slot_key pd t (entries t b)) k
      \<and> 0 \<le> entries t (probe (capacity t) (modHash (capacity t) (hash pd (slot_key pd t (entries t b)))) k)
      \<and> slot_key pd t (entries t (probe (capacity t) (modHash (capacity t) (hash pd (slot_key pd t (entries t b)))) k))
          = slot_key pd t (entries t b)"
proof -
  define K where "K = slot_key pd t (entries t b)"
  define pr where "pr = probe (capacity t) (modHash (capacity t) (hash pd K))"
  have len: "length K = pd" by (simp add: K_def slot_key_length)
  have "entries t b \<noteq> - 1" using b(2) by simp
  then have "reachable pd t b" using st b(1) unfolding settled_def by blast
  then obtain k where k: "pr k = b" "\<forall>j<k. entries t (pr j) \<noteq> - 1"
    unfolding reachable_def nonempty_path_def pr_def K_def by blast
  have "key_match pd (keys t) (entries t b) K"
    using slot_key_eq_iff[OF len, of t "entries t b"] by (simp add: K_def)
  then have "retrieve_stops pd t K (pr k)" unfolding k(1) retrieve_stops_def by simp
  from first_stop[of "\<lambda>k. retrieve_stops pd t K (pr k)", OF this] obtain k0 where
    k0: "k0 \<le> k" "retrieve_stops pd t K (pr k0)" "\<forall>j<k0. \<not> retrieve_stops pd t K (pr j)"
    by blast
  have fh: "first_hit pd t K k0" unfolding first_hit_def pr_def[symmetric] using k0(2,3) by blast
  have it: "in_table t (pr k0)" unfolding pr_def by (rule start_in_table[OF cap])
  have ne: "entries t (pr k0) \<noteq> - 1"
  proof (cases "k0 = k")
    case True
    then show ?thesis using k(1) b(2) by simp
  next
    case False
    then have "k0 < k" using k0(1) by simp
    then show ?thesis using k(2) by blast
  qed
  then have occ: "0 \<le> entries t (pr k0)" using st it unfolding settled_def by blast
  have "key_match pd (keys t) (entries t (pr k0)) K"
    using k0(2) ne unfolding retrieve_stops_def by blast
  then have "slot_key pd t (entries t (pr k0)) = K"
    using slot_key_eq_iff[OF len] by blast
  then show ?thesis using fh occ unfolding K_def pr_def by blast
qed

lemma same_shape_stops:
  assumes sh: "same_shape pd t u" and st: "settled pd t"
    and len: "length key = pd" and b: "in_table t b"
  shows "retrieve_stops pd u key b \<longleftrightarrow> retrieve_stops pd t key b"
proof (cases "entries t b = - 1")
  case True
  then have "entries u b = - 1" using sh b unfolding same_shape_def by blast
  then show ?thesis using True by (simp add: retrieve_stops_def)
next
  case False
  then have occ: "0 \<le> entries t b" using st b unfolding settled_def by blast
  then have u: "0 \<le> entries u b" "slot_key pd t (entries u b) = slot_key pd t (entries t b)"
    using sh b unfolding same_shape_def by blast+
  have ku: "keys u = keys t" using sh unfolding same_shape_def by blast
  have "key_match pd (keys u) (entries u b) key \<longleftrightarrow> slot_key pd t (entries u b) = key"
    unfolding ku using slot_key_eq_iff[OF len] by blast
  also have "\<dots> \<longleftrightarrow> key_match pd (keys t) (entries t b) key"
    unfolding u(2) using slot_key_eq_iff[OF len] by blast
  finally show ?thesis using occ u(1) by (simp add: retrieve_stops_def)
qed

lemma same_shape_retrieve:
  assumes cap: "0 < capacity t" "2 * capacity t < 2 ^ 31"
    and sh: "same_shape pd t u" and st: "settled pd t"
    and len: "length key = pd" and fh: "first_hit pd t key k"
  shows "retrieve pd u key = Some (entries u (probe (capacity t) (modHash (capacity t) (hash pd key)) k))"
proof -
  define pr where "pr = probe (capacity t) (modHash (capacity t) (hash pd key))"
  have cu: "capacity u = capacity t" using sh unfolding same_shape_def by blast
  have it: "in_table t (pr j)" for j unfolding pr_def by (rule start_in_table[OF cap])
  have eq: "retrieve_stops pd u key (pr j) \<longleftrightarrow> retrieve_stops pd t key (pr j)" for j
    by (rule same_shape_stops[OF sh st len it])
  have "\<forall>j<k. \<not> retrieve_stops pd u key (pr j)" "retrieve_stops pd u key (pr k)"
    using fh unfolding first_hit_def pr_def[symmetric] eq by blast+
  then have "retrieve_loop pd u key (modHash (capacity u) (hash pd key)) = Some (entries u (pr k))"
    unfolding pr_def cu[symmetric] by (rule retrieve_loop_walk)
  then show ?thesis unfolding retrieve_def pr_def .
qed

lemma clean_thread_settled:
  assumes cap: "0 < capacity t" "2 * capacity t < 2 ^ 31" and st: "settled pd t"
    and sh: "same_shape pd t u"
    and fx: "\<forall>f k. in_table t f \<and> 0 \<le> entries t f \<and> first_hit pd t (slot_key pd t (entries t f)) k
        \<and> probe (capacity t) (modHash (capacity t) (hash pd (slot_key pd t (entries t f)))) k = f
        \<longrightarrow> entries u f = entries t f"
    and idx: "in_table t (int idx)"
  shows "\<exists>u'. cleanHashTable_thread pd u idx = Some u'
      \<and> same_shape pd t u'
      \<and> (\<forall>f k. in_table t f \<and> 0 \<le> entries t f \<and> first_hit pd t (slot_key pd t (entries t f)) k
        \<and> probe (capacity t) (modHash (capacity t) (hash pd (slot_key pd t (entries t f)))) k = f
        \<longrightarrow> entries u' f = entries t f)
      \<and> (\<forall>b. b \<noteq> int idx \<longrightarrow> entries u' b = entries u b)
      \<and> (0 \<le> entries t (int idx) \<longrightarrow>
           (\<forall>k. first_hit pd t (slot_key pd t (entries t (int idx))) k \<longrightarrow>
              entries u' (int idx) = entries t (probe (capacity t)
                  (modHash (capacity t) (hash pd (slot_key pd t (entries t (int idx))))) k)))"
proof (cases "0 \<le> entries t (int idx)")
  case False
  then have "entries t (int idx) = - 1" using st idx unfolding settled_def by blast
  then have "entries u (int idx) = - 1" using sh idx unfolding same_shape_def by blast
  then have "cleanHashTable_thread pd u idx = Some u" by (simp add: cleanHashTable_thread_def)
  then show ?thesis using sh fx False by blast
next
  case True
  define K where "K = slot_key pd t (entries t (int idx))"
  define pr where "pr = probe (capacity t) (modHash (capacity t) (hash pd K))"
  have len: "length K = pd" by (simp add: K_def slot_key_length)
  have ku: "keys u = keys t" and cu: "capacity u = capacity t" and vu: "values_mem u = values_mem t"
    using sh unfolding same_shape_def by blast+
  have ou: "0 \<le> entries u (int idx)" "slot_key pd t (entries u (int idx)) = K"
    using sh idx True unfolding same_shape_def K_def by blast+
  from own_first_hit[OF cap st idx True] obtain k0 where
    fh: "first_hit pd t K k0" and occ: "0 \<le> entries t (pr k0)"
    and kf: "slot_key pd t (entries t (pr k0)) = K"
    unfolding K_def[symmetric] pr_def[symmetric] by blast
  have itf: "in_table t (pr k0)" unfolding pr_def by (rule start_in_table[OF cap])
  have fh': "first_hit pd t (slot_key pd t (entries t (pr k0))) k0" unfolding kf by (rule fh)
  have pf: "probe (capacity t) (modHash (capacity t) (hash pd (slot_key pd t (entries t (pr k0))))) k0 = pr k0"
    unfolding kf by (simp only: pr_def)
  have fixf: "entries u (pr k0) = entries t (pr k0)"
    using fx itf occ fh' pf by blast
  have uf: "0 \<le> entries u (pr k0)" "slot_key pd t (entries u (pr k0)) = K"
    unfolding fixf using occ kf by blast+
  have ret: "retrieve pd u (slot_key pd u (entries u (int idx))) = Some (entries u (pr k0))"
    unfolding slot_key_keys[OF ku] ou(2) pr_def
    by (rule same_shape_retrieve[OF cap sh st len fh])
  define u' where "u' = u\<lparr>entries := (entries u)(int idx := entries u (pr k0))\<rparr>"
  have step: "cleanHashTable_thread pd u idx = Some u'"
    unfolding cleanHashTable_thread_def u'_def using ou(1) ret by simp
  have e': "entries u' b = (if b = int idx then entries u (pr k0) else entries u b)" for b
    by (simp add: u'_def)
  have sh': "same_shape pd t u'"
    unfolding same_shape_def
  proof (intro conjI allI impI)
    show "capacity u' = capacity t" "keys u' = keys t" "values_mem u' = values_mem t"
      using cu ku vu by (simp_all add: u'_def)
  next
    fix b assume b: "in_table t b" "entries t b = - 1"
    then have "b \<noteq> int idx" using True by auto
    then show "entries u' b = - 1" unfolding e' using sh b unfolding same_shape_def by simp
  next
    fix b assume b: "in_table t b" "0 \<le> entries t b"
    show "0 \<le> entries u' b"
      unfolding e' using uf(1) sh b unfolding same_shape_def by simp
  next
    fix b assume b: "in_table t b" "0 \<le> entries t b"
    show "slot_key pd t (entries u' b) = slot_key pd t (entries t b)"
    proof (cases "b = int idx")
      case True
      show ?thesis unfolding e' True using uf(2) by (simp add: K_def)
    next
      case False
      then show ?thesis unfolding e' using sh b unfolding same_shape_def by simp
    qed
  qed
  have fx': "\<forall>f k. in_table t f \<and> 0 \<le> entries t f \<and> first_hit pd t (slot_key pd t (entries t f)) k
        \<and> probe (capacity t) (modHash (capacity t) (hash pd (slot_key pd t (entries t f)))) k = f
        \<longrightarrow> entries u' f = entries t f"
  proof (intro allI impI)
    fix f k assume a: "in_table t f \<and> 0 \<le> entries t f \<and> first_hit pd t (slot_key pd t (entries t f)) k
        \<and> probe (capacity t) (modHash (capacity t) (hash pd (slot_key pd t (entries t f)))) k = f"
    then have old: "entries u f = entries t f" using fx by blast
    show "entries u' f = entries t f"
    proof (cases "f = int idx")
      case False
      then show ?thesis unfolding e' using old by simp
    next
      case T: True
      have "first_hit pd t K k" "pr k = f" using a unfolding T K_def pr_def by blast+
      then have "k = k0" using fh first_hit_unique by blast
      then have "pr k0 = int idx" using \<open>pr k = f\<close> T by simp
      then show ?thesis unfolding e' T using old T by simp
    qed
  qed
  have oth: "\<forall>b. b \<noteq> int idx \<longrightarrow> entries u' b = entries u b" unfolding e' by simp
  have own: "\<forall>k. first_hit pd t K k \<longrightarrow> entries u' (int idx) = entries t (pr k)"
  proof (intro allI impI)
    fix k assume "first_hit pd t K k"
    then have "k = k0" using fh first_hit_unique by blast
    then show "entries u' (int idx) = entries t (pr k)" unfolding e' using fixf by simp
  qed
  show ?thesis
    using step sh' fx' oth own unfolding K_def pr_def by blast
qed

lemma same_shape_refl: "same_shape pd t t"
  by (simp add: same_shape_def)

lemma clean_fold_settled:
  assumes cap: "0 < capacity t" "2 * capacity t < 2 ^ 31" and st: "settled pd t"
    and k: "int k \<le> 2 * capacity t"
  shows "\<exists>u. cleanHashTable pd k t = Some u
      \<and> same_shape pd t u
      \<and> (\<forall>f j. in_table t f \<and> 0 \<le> entries t f \<and> first_hit pd t (slot_key pd t (entries t f)) j
        \<and> probe (capacity t) (modHash (capacity t) (hash pd (slot_key pd t (entries t f)))) j = f
        \<longrightarrow> entries u f = entries t f)
      \<and> (\<forall>b j. 0 \<le> b \<and> b < int k \<and> 0 \<le> entries t b
           \<and> first_hit pd t (slot_key pd t (entries t b)) j \<longrightarrow>
              entries u b = entries t (probe (capacity t)
                  (modHash (capacity t) (hash pd (slot_key pd t (entries t b)))) j))"
  using k
proof (induction k)
  case 0
  show ?case by (simp add: cleanHashTable_def same_shape_refl)
next
  case (Suc k)
  have kle: "int k \<le> 2 * capacity t" and idx: "in_table t (int k)"
    using Suc.prems by (simp_all add: in_table_def)
  from Suc.IH[OF kle] obtain u where
    f: "cleanHashTable pd k t = Some u" and sh: "same_shape pd t u"
    and fx: "\<forall>f j. in_table t f \<and> 0 \<le> entries t f \<and> first_hit pd t (slot_key pd t (entries t f)) j
        \<and> probe (capacity t) (modHash (capacity t) (hash pd (slot_key pd t (entries t f)))) j = f
        \<longrightarrow> entries u f = entries t f"
    and dn: "\<forall>b j. 0 \<le> b \<and> b < int k \<and> 0 \<le> entries t b
           \<and> first_hit pd t (slot_key pd t (entries t b)) j \<longrightarrow>
              entries u b = entries t (probe (capacity t)
                  (modHash (capacity t) (hash pd (slot_key pd t (entries t b)))) j)"
    by blast
  from clean_thread_settled[OF cap st sh fx idx] obtain u' where
    s: "cleanHashTable_thread pd u k = Some u'" and sh': "same_shape pd t u'"
    and fx': "\<forall>f j. in_table t f \<and> 0 \<le> entries t f \<and> first_hit pd t (slot_key pd t (entries t f)) j
        \<and> probe (capacity t) (modHash (capacity t) (hash pd (slot_key pd t (entries t f)))) j = f
        \<longrightarrow> entries u' f = entries t f"
    and oth: "\<forall>b. b \<noteq> int k \<longrightarrow> entries u' b = entries u b"
    and own: "0 \<le> entries t (int k) \<longrightarrow>
           (\<forall>j. first_hit pd t (slot_key pd t (entries t (int k))) j \<longrightarrow>
              entries u' (int k) = entries t (probe (capacity t)
                  (modHash (capacity t) (hash pd (slot_key pd t (entries t (int k))))) j))"
    by blast
  have r: "cleanHashTable pd (Suc k) t = Some u'"
    using f s by (simp add: cleanHashTable_def fold_option_snoc)
  have dn': "\<forall>b j. 0 \<le> b \<and> b < int (Suc k) \<and> 0 \<le> entries t b
           \<and> first_hit pd t (slot_key pd t (entries t b)) j \<longrightarrow>
              entries u' b = entries t (probe (capacity t)
                  (modHash (capacity t) (hash pd (slot_key pd t (entries t b)))) j)"
  proof (intro allI impI)
    fix b j assume a: "0 \<le> b \<and> b < int (Suc k) \<and> 0 \<le> entries t b
           \<and> first_hit pd t (slot_key pd t (entries t b)) j"
    show "entries u' b = entries t (probe (capacity t)
                  (modHash (capacity t) (hash pd (slot_key pd t (entries t b)))) j)"
    proof (cases "b = int k")
      case True
      show ?thesis using own a unfolding True by blast
    next
      case False
      then have "b < int k" using a by simp
      then have "entries u b = entries t (probe (capacity t)
                  (modHash (capacity t) (hash pd (slot_key pd t (entries t b)))) j)"
        using dn a by blast
      then show ?thesis using oth False by simp
    qed
  qed
  show ?case using r sh' fx' dn' by blast
qed

lemma clean_settled:
  assumes cap: "0 < capacity t" "2 * capacity t < 2 ^ 31" and st: "settled pd t"
  shows "\<exists>t'. cleanHashTable pd (nat (2 * capacity t)) t = Some t'
     \<and> capacity t' = capacity t \<and> keys t' = keys t \<and> values_mem t' = values_mem t
     \<and> (\<forall>b. in_table t b \<and> 0 \<le> entries t b \<longrightarrow>
          0 \<le> entries t' b \<and> slot_key pd t' (entries t' b) = slot_key pd t (entries t b)
          \<and> retrieve pd t' (slot_key pd t (entries t b)) = Some (entries t' b))"
proof -
  have k: "int (nat (2 * capacity t)) \<le> 2 * capacity t" using cap by simp
  from clean_fold_settled[OF cap st k] obtain u where
    r: "cleanHashTable pd (nat (2 * capacity t)) t = Some u" and sh: "same_shape pd t u"
    and fx: "\<forall>f j. in_table t f \<and> 0 \<le> entries t f \<and> first_hit pd t (slot_key pd t (entries t f)) j
        \<and> probe (capacity t) (modHash (capacity t) (hash pd (slot_key pd t (entries t f)))) j = f
        \<longrightarrow> entries u f = entries t f"
    and dn: "\<forall>b j. 0 \<le> b \<and> b < int (nat (2 * capacity t)) \<and> 0 \<le> entries t b
           \<and> first_hit pd t (slot_key pd t (entries t b)) j \<longrightarrow>
              entries u b = entries t (probe (capacity t)
                  (modHash (capacity t) (hash pd (slot_key pd t (entries t b)))) j)"
    by blast
  have ku: "keys u = keys t" and cu: "capacity u = capacity t" and vu: "values_mem u = values_mem t"
    using sh unfolding same_shape_def by blast+
  have main: "0 \<le> entries u b \<and> slot_key pd u (entries u b) = slot_key pd t (entries t b)
          \<and> retrieve pd u (slot_key pd t (entries t b)) = Some (entries u b)"
    if b: "in_table t b" "0 \<le> entries t b" for b
  proof -
    define K where "K = slot_key pd t (entries t b)"
    define pr where "pr = probe (capacity t) (modHash (capacity t) (hash pd K))"
    have len: "length K = pd" by (simp add: K_def slot_key_length)
    from own_first_hit[OF cap st b] obtain k0 where
      fh: "first_hit pd t K k0" and occ: "0 \<le> entries t (pr k0)"
      and kf: "slot_key pd t (entries t (pr k0)) = K"
      unfolding K_def[symmetric] pr_def[symmetric] by blast
    have itf: "in_table t (pr k0)" unfolding pr_def by (rule start_in_table[OF cap])
    have fh': "first_hit pd t (slot_key pd t (entries t (pr k0))) k0" unfolding kf by (rule fh)
    have pf: "probe (capacity t) (modHash (capacity t) (hash pd (slot_key pd t (entries t (pr k0))))) k0 = pr k0"
      unfolding kf by (simp only: pr_def)
    have fixf: "entries u (pr k0) = entries t (pr k0)"
      using fx itf occ fh' pf by blast
    have bk: "0 \<le> b \<and> b < int (nat (2 * capacity t))" using b(1) by (simp add: in_table_def)
    have eb: "entries u b = entries t (pr k0)"
      using dn bk b(2) fh unfolding K_def pr_def by blast
    have "retrieve pd u K = Some (entries u (pr k0))"
      unfolding pr_def by (rule same_shape_retrieve[OF cap sh st len fh])
    then have ret: "retrieve pd u K = Some (entries u b)" unfolding fixf eb .
    have "0 \<le> entries u b" "slot_key pd t (entries u b) = K"
      using sh b unfolding same_shape_def K_def by blast+
    then show ?thesis using ret unfolding slot_key_keys[OF ku] K_def by blast
  qed
  show ?thesis using r cu ku vu main by blast
qed

section \<open>The racy execution of the inserts\<close>

lemma probe_Suc_next: "probe cap h (Suc k) = next_bucket cap (probe cap h k)"
  by (simp add: probe_def)

lemma next_in_table:
  assumes "in_table t h"
  shows "in_table t (next_bucket (capacity t) h)"
  using assms unfolding in_table_def next_bucket_def by auto

lemma nonempty_path_refl: "nonempty_path t h h"
  unfolding nonempty_path_def by (rule exI[of _ 0]) (simp add: probe_0)

lemma nonempty_path_next:
  assumes "nonempty_path t h0 h" "entries t h \<noteq> - 1"
  shows "nonempty_path t h0 (next_bucket (capacity t) h)"
proof -
  from assms(1) obtain k where k: "probe (capacity t) h0 k = h"
    "\<forall>j<k. entries t (probe (capacity t) h0 j) \<noteq> - 1"
    unfolding nonempty_path_def by blast
  have "probe (capacity t) h0 (Suc k) = next_bucket (capacity t) h"
    unfolding probe_Suc_next k(1) ..
  moreover have "\<forall>j<Suc k. entries t (probe (capacity t) h0 j) \<noteq> - 1"
    using k assms(2) less_Suc_eq by auto
  ultimately show ?thesis unfolding nonempty_path_def by blast
qed

lemma nonempty_path_mono:
  assumes "nonempty_path t h0 h" "capacity t' = capacity t"
    and "\<forall>b. entries t b \<noteq> - 1 \<longrightarrow> entries t' b \<noteq> - 1"
  shows "nonempty_path t' h0 h"
  using assms unfolding nonempty_path_def by metis

lemma reachable_frame:
  assumes "reachable pd t b" "capacity t' = capacity t"
    and "\<forall>b. entries t b \<noteq> - 1 \<longrightarrow> entries t' b \<noteq> - 1"
    and "slot_key pd t' (entries t' b) = slot_key pd t (entries t b)"
  shows "reachable pd t' b"
  using nonempty_path_mono[OF assms(1)[unfolded reachable_def] assms(2,3)]
  unfolding reachable_def assms(2,4) .

lemma thread_ok_frame:
  assumes ok: "thread_ok pd t key slot pc"
    and cap: "capacity t' = capacity t"
    and mono: "\<forall>b. entries t b \<noteq> - 1 \<longrightarrow> entries t' b \<noteq> - 1"
    and occ: "\<forall>b. 0 \<le> entries t b \<longrightarrow> entries t' b = entries t b"
    and lock: "\<forall>h. holds_lock pc h \<longrightarrow> entries t' h = entries t h"
    and unp: "\<forall>b. entries t' b = entries t b \<or> entries t' b \<noteq> slot"
    and kslot: "slot_key pd t' slot = slot_key pd t slot \<or> (\<forall>h. pc \<noteq> Written h)"
    and kocc: "\<forall>h. pc = Returned h \<longrightarrow> slot_key pd t' (entries t h) = slot_key pd t (entries t h)"
  shows "thread_ok pd t' key slot pc"
proof -
  have it: "in_table t' h \<longleftrightarrow> in_table t h" for h by (simp add: in_table_def cap)
  have un: "unpublished t slot \<Longrightarrow> unpublished t' slot"
    unfolding unpublished_def it using unp by metis
  have pa: "nonempty_path t h0 h \<Longrightarrow> nonempty_path t' h0 h" for h0 h
    by (rule nonempty_path_mono[OF _ cap mono])
  show ?thesis
  proof (cases pc)
    case (Probing h)
    then show ?thesis using ok un pa by (simp add: thread_ok_def it cap)
  next
    case (Locked h)
    then have "entries t' h = entries t h" using lock by (simp add: holds_lock_def)
    then show ?thesis using ok un pa Locked by (simp add: thread_ok_def it cap)
  next
    case (Written h)
    then have "entries t' h = entries t h" using lock by (simp add: holds_lock_def)
    moreover have "slot_key pd t' slot = slot_key pd t slot" using kslot Written by blast
    ultimately show ?thesis using ok un pa Written by (simp add: thread_ok_def it cap)
  next
    case (Returned h)
    then have o: "in_table t h" "0 \<le> entries t h" "slot_key pd t (entries t h) = key"
      using ok by (simp_all add: thread_ok_def)
    have e: "entries t' h = entries t h" using occ o(2) by blast
    have "slot_key pd t' (entries t h) = key" using kocc Returned o(3) by simp
    then show ?thesis using o e Returned by (simp add: thread_ok_def it)
  qed
qed

lemma holds_lock_simps:
  "holds_lock (Probing h) b = False" "holds_lock (Returned h) b = False"
  "holds_lock (Locked h) b = (b = h)" "holds_lock (Written h) b = (b = h)"
  by (auto simp: holds_lock_def)

lemma race_inv_unfold:
  "race_inv pd keyf slotf cap (t, pcs) \<longleftrightarrow>
     capacity t = cap
     \<and> (\<forall>b. in_table t b \<longrightarrow>
           entries t b = - 1
           \<or> (entries t b = - 2 \<and> (\<exists>i. holds_lock (pcs i) b))
           \<or> (0 \<le> entries t b \<and> reachable pd t b))
     \<and> (\<forall>i. thread_ok pd t (keyf i) (slotf i) (pcs i))
     \<and> (\<forall>i i' b. holds_lock (pcs i) b \<and> holds_lock (pcs i') b \<longrightarrow> i = i')"
  by (simp add: race_inv_def)

text \<open>A step that leaves the table as it is and leaves the thread without a lock.\<close>

lemma race_inv_move:
  assumes inv: "race_inv pd keyf slotf cap (t, pcs)"
    and nl: "\<forall>b. \<not> holds_lock (pcs i) b" "\<forall>b. \<not> holds_lock pc' b"
    and ok: "thread_ok pd t (keyf i) (slotf i) pc'"
  shows "race_inv pd keyf slotf cap (t, pcs(i := pc'))"
  unfolding race_inv_unfold
proof (intro conjI allI impI)
  show "capacity t = cap" using inv unfolding race_inv_unfold by blast
next
  fix b assume b: "in_table t b"
  have "entries t b = - 1 \<or> (entries t b = - 2 \<and> (\<exists>i. holds_lock (pcs i) b))
           \<or> (0 \<le> entries t b \<and> reachable pd t b)"
    using inv b unfolding race_inv_unfold by blast
  moreover have "\<exists>i0. holds_lock ((pcs(i := pc')) i0) b" if "\<exists>i0. holds_lock (pcs i0) b"
  proof -
    from that obtain i0 where i0: "holds_lock (pcs i0) b" by blast
    then have "i0 \<noteq> i" using nl(1) by blast
    then show ?thesis using i0 by (intro exI[of _ i0]) simp
  qed
  ultimately show "entries t b = - 1 \<or> (entries t b = - 2 \<and> (\<exists>i0. holds_lock ((pcs(i := pc')) i0) b))
           \<or> (0 \<le> entries t b \<and> reachable pd t b)"
    by blast
next
  fix i0
  show "thread_ok pd t (keyf i0) (slotf i0) ((pcs(i := pc')) i0)"
    using inv ok unfolding race_inv_unfold by simp
next
  fix i0 i1 b assume a: "holds_lock ((pcs(i := pc')) i0) b \<and> holds_lock ((pcs(i := pc')) i1) b"
  then have "i0 \<noteq> i" "i1 \<noteq> i" using nl(2) by (auto split: if_splits)
  then show "i0 = i1" using a inv unfolding race_inv_unfold by (simp; blast)
qed

lemma race_inv_lock:
  assumes inv: "race_inv pd keyf slotf cap (t, pcs)"
    and slots: "\<forall>i. 0 \<le> slotf i"
    and pc: "pcs i = Probing h" and e: "entries t h = - 1"
  shows "race_inv pd keyf slotf cap (t\<lparr>entries := (entries t)(h := - 2)\<rparr>, pcs(i := Locked h))"
proof -
  define t' where "t' = t\<lparr>entries := (entries t)(h := - 2)\<rparr>"
  have c: "capacity t' = capacity t" and ks: "keys t' = keys t"
    and en: "\<And>b. entries t' b = (if b = h then - 2 else entries t b)"
    by (simp_all add: t'_def)
  have it: "in_table t' b \<longleftrightarrow> in_table t b" for b by (simp add: in_table_def c)
  have r1: "capacity t = cap"
    and r2: "\<And>b. in_table t b \<Longrightarrow> entries t b = - 1
           \<or> (entries t b = - 2 \<and> (\<exists>i. holds_lock (pcs i) b))
           \<or> (0 \<le> entries t b \<and> reachable pd t b)"
    and r3: "\<And>i. thread_ok pd t (keyf i) (slotf i) (pcs i)"
    and r4: "\<And>i i' b. holds_lock (pcs i) b \<Longrightarrow> holds_lock (pcs i') b \<Longrightarrow> i = i'"
    using inv unfolding race_inv_unfold by blast+
  have mono: "\<forall>b. entries t b \<noteq> - 1 \<longrightarrow> entries t' b \<noteq> - 1" unfolding en by simp
  have occ: "\<forall>b. 0 \<le> entries t b \<longrightarrow> entries t' b = entries t b" unfolding en using e by auto
  have oki: "in_table t h" "nonempty_path t (modHash (capacity t) (hash pd (keyf i))) h"
    "unpublished t (slotf i)"
    using r3[of i] unfolding pc by (simp_all add: thread_ok_def)
  have held: "entries t b = - 2" if "holds_lock (pcs i0) b" for i0 b
    using r3[of i0] that by (cases "pcs i0") (auto simp: thread_ok_def holds_lock_def)
  have nh: "\<not> holds_lock (pcs i0) h" for i0 using held[of i0 h] e by auto
  have "race_inv pd keyf slotf cap (t', pcs(i := Locked h))"
    unfolding race_inv_unfold
  proof (intro conjI allI impI)
    show "capacity t' = cap" using c r1 by simp
  next
    fix b assume b: "in_table t' b"
    show "entries t' b = - 1 \<or> (entries t' b = - 2 \<and> (\<exists>i0. holds_lock ((pcs(i := Locked h)) i0) b))
           \<or> (0 \<le> entries t' b \<and> reachable pd t' b)"
    proof (cases "b = h")
      case True
      have "holds_lock ((pcs(i := Locked h)) i) h" by (simp add: holds_lock_def)
      then show ?thesis unfolding True en by auto
    next
      case False
      have eb: "entries t' b = entries t b" unfolding en using False by simp
      from r2[OF b[unfolded it]] show ?thesis
      proof (elim disjE conjE exE)
        assume "entries t b = - 1"
        then show ?thesis unfolding eb by simp
      next
        fix i0 assume a: "entries t b = - 2" "holds_lock (pcs i0) b"
        have "i0 \<noteq> i" using a(2) pc by (auto simp: holds_lock_def)
        then have "holds_lock ((pcs(i := Locked h)) i0) b" using a(2) by simp
        then show ?thesis unfolding eb using a(1) by blast
      next
        assume a: "0 \<le> entries t b" "reachable pd t b"
        have "slot_key pd t' (entries t' b) = slot_key pd t (entries t b)"
          unfolding eb by (rule slot_key_keys[OF ks])
        from reachable_frame[OF a(2) c mono this] show ?thesis unfolding eb using a(1) by blast
      qed
    qed
  next
    fix i0
    show "thread_ok pd t' (keyf i0) (slotf i0) ((pcs(i := Locked h)) i0)"
    proof (cases "i0 = i")
      case True
      have "unpublished t' (slotf i)"
        using oki(3) slots[rule_format, of i] unfolding unpublished_def it en by auto
      moreover have "nonempty_path t' (modHash (capacity t') (hash pd (keyf i))) h"
        unfolding c by (rule nonempty_path_mono[OF oki(2) c mono])
      ultimately show ?thesis using oki(1) unfolding True by (simp add: thread_ok_def it en)
    next
      case False
      have lock: "\<forall>b. holds_lock (pcs i0) b \<longrightarrow> entries t' b = entries t b"
        unfolding en using nh by auto
      have unp: "\<forall>b. entries t' b = entries t b \<or> entries t' b \<noteq> slotf i0"
        unfolding en using slots[rule_format, of i0] by auto
      have "thread_ok pd t' (keyf i0) (slotf i0) (pcs i0)"
        by (rule thread_ok_frame[OF r3[of i0] c mono occ lock unp])
          (simp_all add: slot_key_keys[OF ks])
      then show ?thesis using False by simp
    qed
  next
    fix i0 i1 b assume a: "holds_lock ((pcs(i := Locked h)) i0) b \<and> holds_lock ((pcs(i := Locked h)) i1) b"
    show "i0 = i1"
    proof (cases "i0 = i")
      case True
      then have bh: "b = h" using a by (simp add: holds_lock_def)
      show ?thesis
      proof (rule ccontr)
        assume "i0 \<noteq> i1"
        then have "holds_lock (pcs i1) h" using a True bh by simp
        then show False using nh by blast
      qed
    next
      case False
      show ?thesis
      proof (cases "i1 = i")
        case True
        then have bh: "b = h" using a by (simp add: holds_lock_def)
        then have "holds_lock (pcs i0) h" using a False by simp
        then show ?thesis using nh by blast
      next
        case F: False
        then show ?thesis using a False r4[of i0 b i1] by simp
      qed
    qed
  qed
  then show ?thesis unfolding t'_def .
qed

lemma slot_key_write_keys:
  "e \<noteq> q \<Longrightarrow> slot_key pd (t\<lparr>keys := write_key pd (keys t) q key\<rparr>) e = slot_key pd t e"
  "length key = pd \<Longrightarrow> slot_key pd (t\<lparr>keys := write_key pd (keys t) q key\<rparr>) q = key"
  by (simp_all add: slot_key_def write_key_other write_key_same list_eq_iff_nth_eq)

lemma race_inv_write:
  assumes inv: "race_inv pd keyf slotf cap (t, pcs)"
    and inj: "inj slotf" and len: "\<forall>i. length (keyf i) = pd"
    and pc: "pcs i = Locked h"
  shows "race_inv pd keyf slotf cap
           (t\<lparr>keys := write_key pd (keys t) (slotf i) (keyf i)\<rparr>, pcs(i := Written h))"
proof -
  define t' where "t' = t\<lparr>keys := write_key pd (keys t) (slotf i) (keyf i)\<rparr>"
  have c: "capacity t' = capacity t" and en: "entries t' = entries t"
    by (simp_all add: t'_def)
  have it: "in_table t' b \<longleftrightarrow> in_table t b" for b by (simp add: in_table_def c)
  have r1: "capacity t = cap"
    and r2: "\<And>b. in_table t b \<Longrightarrow> entries t b = - 1
           \<or> (entries t b = - 2 \<and> (\<exists>i. holds_lock (pcs i) b))
           \<or> (0 \<le> entries t b \<and> reachable pd t b)"
    and r3: "\<And>i. thread_ok pd t (keyf i) (slotf i) (pcs i)"
    and r4: "\<And>i i' b. holds_lock (pcs i) b \<Longrightarrow> holds_lock (pcs i') b \<Longrightarrow> i = i'"
    using inv unfolding race_inv_unfold by blast+
  have oki: "in_table t h" "entries t h = - 2"
    "nonempty_path t (modHash (capacity t) (hash pd (keyf i))) h" "unpublished t (slotf i)"
    using r3[of i] unfolding pc by (simp_all add: thread_ok_def)
  have ko: "slot_key pd t' e = slot_key pd t e" if "e \<noteq> slotf i" for e
    unfolding t'_def by (rule slot_key_write_keys(1)[OF that])
  have ki: "slot_key pd t' (slotf i) = keyf i"
    unfolding t'_def by (rule slot_key_write_keys(2)) (simp add: len)
  have kb: "slot_key pd t' (entries t b) = slot_key pd t (entries t b)" if "in_table t b" for b
    using oki(4) that unfolding unpublished_def by (intro ko) blast
  have mono: "\<forall>b. entries t b \<noteq> - 1 \<longrightarrow> entries t' b \<noteq> - 1" unfolding en by simp
  have hl: "holds_lock ((pcs(i := Written h)) i0) b \<longleftrightarrow> holds_lock (pcs i0) b" for i0 b
    using pc by (auto simp: holds_lock_def)
  have "race_inv pd keyf slotf cap (t', pcs(i := Written h))"
    unfolding race_inv_unfold hl
  proof (intro conjI allI impI)
    show "capacity t' = cap" using c r1 by simp
  next
    fix b assume b: "in_table t' b"
    then have b': "in_table t b" unfolding it .
    from r2[OF b'] show "entries t' b = - 1 \<or> (entries t' b = - 2 \<and> (\<exists>i0. holds_lock (pcs i0) b))
           \<or> (0 \<le> entries t' b \<and> reachable pd t' b)"
    proof (elim disjE conjE)
      assume a: "0 \<le> entries t b" "reachable pd t b"
      have "slot_key pd t' (entries t' b) = slot_key pd t (entries t b)"
        unfolding en by (rule kb[OF b'])
      from reachable_frame[OF a(2) c mono this] show ?thesis unfolding en using a(1) by blast
    qed (simp_all add: en)
  next
    fix i0
    show "thread_ok pd t' (keyf i0) (slotf i0) ((pcs(i := Written h)) i0)"
    proof (cases "i0 = i")
      case True
      have "unpublished t' (slotf i)" using oki(4) unfolding unpublished_def it en .
      moreover have "nonempty_path t' (modHash (capacity t') (hash pd (keyf i))) h"
        unfolding c by (rule nonempty_path_mono[OF oki(3) c mono])
      ultimately show ?thesis using oki(1,2) ki unfolding True by (simp add: thread_ok_def it en)
    next
      case False
      then have ne: "slotf i0 \<noteq> slotf i" using inj by (simp add: inj_eq)
      have kocc: "\<forall>h'. pcs i0 = Returned h' \<longrightarrow> slot_key pd t' (entries t h') = slot_key pd t (entries t h')"
      proof (intro allI impI)
        fix h' assume "pcs i0 = Returned h'"
        then have "in_table t h'" using r3[of i0] by (simp add: thread_ok_def)
        then show "slot_key pd t' (entries t h') = slot_key pd t (entries t h')" by (rule kb)
      qed
      have "thread_ok pd t' (keyf i0) (slotf i0) (pcs i0)"
        by (rule thread_ok_frame[OF r3[of i0] c mono _ _ _ _ kocc]) (simp_all add: en ko[OF ne])
      then show ?thesis using False by simp
    qed
  next
    fix i0 i1 b assume "holds_lock (pcs i0) b \<and> holds_lock (pcs i1) b"
    then show "i0 = i1" using r4 by blast
  qed
  then show ?thesis unfolding t'_def .
qed

lemma race_inv_publish:
  assumes inv: "race_inv pd keyf slotf cap (t, pcs)"
    and inj: "inj slotf" and slots: "\<forall>i. 0 \<le> slotf i"
    and pc: "pcs i = Written h"
  shows "race_inv pd keyf slotf cap (t\<lparr>entries := (entries t)(h := slotf i)\<rparr>, pcs(i := Returned h))"
proof -
  define t' where "t' = t\<lparr>entries := (entries t)(h := slotf i)\<rparr>"
  have c: "capacity t' = capacity t" and ks: "keys t' = keys t"
    and en: "\<And>b. entries t' b = (if b = h then slotf i else entries t b)"
    by (simp_all add: t'_def)
  have it: "in_table t' b \<longleftrightarrow> in_table t b" for b by (simp add: in_table_def c)
  have r1: "capacity t = cap"
    and r2: "\<And>b. in_table t b \<Longrightarrow> entries t b = - 1
           \<or> (entries t b = - 2 \<and> (\<exists>i. holds_lock (pcs i) b))
           \<or> (0 \<le> entries t b \<and> reachable pd t b)"
    and r3: "\<And>i. thread_ok pd t (keyf i) (slotf i) (pcs i)"
    and r4: "\<And>i i' b. holds_lock (pcs i) b \<Longrightarrow> holds_lock (pcs i') b \<Longrightarrow> i = i'"
    using inv unfolding race_inv_unfold by blast+
  have oki: "in_table t h" "entries t h = - 2"
    "nonempty_path t (modHash (capacity t) (hash pd (keyf i))) h" "unpublished t (slotf i)"
    "slot_key pd t (slotf i) = keyf i"
    using r3[of i] unfolding pc by (simp_all add: thread_ok_def)
  have si: "0 \<le> slotf i" using slots by blast
  have mono: "\<forall>b. entries t b \<noteq> - 1 \<longrightarrow> entries t' b \<noteq> - 1" unfolding en using si by auto
  have occ: "\<forall>b. 0 \<le> entries t b \<longrightarrow> entries t' b = entries t b" unfolding en using oki(2) by auto
  have hi: "holds_lock (pcs i) h" unfolding pc by (simp add: holds_lock_def)
  have "race_inv pd keyf slotf cap (t', pcs(i := Returned h))"
    unfolding race_inv_unfold
  proof (intro conjI allI impI)
    show "capacity t' = cap" using c r1 by simp
  next
    fix b assume b: "in_table t' b"
    show "entries t' b = - 1 \<or> (entries t' b = - 2 \<and> (\<exists>i0. holds_lock ((pcs(i := Returned h)) i0) b))
           \<or> (0 \<le> entries t' b \<and> reachable pd t' b)"
    proof (cases "b = h")
      case True
      have "nonempty_path t' (modHash (capacity t) (hash pd (keyf i))) h"
        by (rule nonempty_path_mono[OF oki(3) c mono])
      moreover have "slot_key pd t' (entries t' h) = keyf i"
        unfolding en slot_key_keys[OF ks] using oki(5) by simp
      ultimately have "reachable pd t' h"
        unfolding reachable_def c by simp
      then show ?thesis unfolding True en using si by simp
    next
      case False
      have eb: "entries t' b = entries t b" unfolding en using False by simp
      from r2[OF b[unfolded it]] show ?thesis
      proof (elim disjE conjE exE)
        assume "entries t b = - 1"
        then show ?thesis unfolding eb by simp
      next
        fix i0 assume a: "entries t b = - 2" "holds_lock (pcs i0) b"
        have "i0 \<noteq> i" using a(2) pc False by (auto simp: holds_lock_def)
        then have "holds_lock ((pcs(i := Returned h)) i0) b" using a(2) by simp
        then show ?thesis unfolding eb using a(1) by blast
      next
        assume a: "0 \<le> entries t b" "reachable pd t b"
        have "slot_key pd t' (entries t' b) = slot_key pd t (entries t b)"
          unfolding eb by (rule slot_key_keys[OF ks])
        from reachable_frame[OF a(2) c mono this] show ?thesis unfolding eb using a(1) by blast
      qed
    qed
  next
    fix i0
    show "thread_ok pd t' (keyf i0) (slotf i0) ((pcs(i := Returned h)) i0)"
    proof (cases "i0 = i")
      case True
      show ?thesis unfolding True
        using oki(1,5) si by (simp add: thread_ok_def it en slot_key_keys[OF ks])
    next
      case False
      then have ne: "slotf i \<noteq> slotf i0" using inj by (simp add: inj_eq)
      have lock: "\<forall>b. holds_lock (pcs i0) b \<longrightarrow> entries t' b = entries t b"
      proof (intro allI impI)
        fix b assume "holds_lock (pcs i0) b"
        then have "b \<noteq> h" using r4[OF hi, of i0] False by blast
        then show "entries t' b = entries t b" unfolding en by simp
      qed
      have unp: "\<forall>b. entries t' b = entries t b \<or> entries t' b \<noteq> slotf i0"
        unfolding en using ne by auto
      have "thread_ok pd t' (keyf i0) (slotf i0) (pcs i0)"
        by (rule thread_ok_frame[OF r3[of i0] c mono occ lock unp])
          (simp_all add: slot_key_keys[OF ks])
      then show ?thesis using False by simp
    qed
  next
    fix i0 i1 b assume a: "holds_lock ((pcs(i := Returned h)) i0) b \<and> holds_lock ((pcs(i := Returned h)) i1) b"
    then have "i0 \<noteq> i" "i1 \<noteq> i" by (auto simp: holds_lock_def split: if_splits)
    then show "i0 = i1" using a r4[of i0 b i1] by simp
  qed
  then show ?thesis unfolding t'_def .
qed

lemma race_step_inv:
  assumes inv: "race_inv pd keyf slotf cap st"
    and inj: "inj slotf" and slots: "\<forall>i. 0 \<le> slotf i" and len: "\<forall>i. length (keyf i) = pd"
  shows "race_inv pd keyf slotf cap (race_step pd keyf slotf st i)"
proof -
  obtain t pcs where st: "st = (t, pcs)" by (cases st)
  note inv' = inv[unfolded st]
  have r2: "\<And>b. in_table t b \<Longrightarrow> entries t b = - 1
           \<or> (entries t b = - 2 \<and> (\<exists>i. holds_lock (pcs i) b))
           \<or> (0 \<le> entries t b \<and> reachable pd t b)"
    and r3: "\<And>i. thread_ok pd t (keyf i) (slotf i) (pcs i)"
    using inv' unfolding race_inv_unfold by blast+
  show ?thesis
  proof (cases "pcs i")
    case (Probing h)
    have oki: "in_table t h" "nonempty_path t (modHash (capacity t) (hash pd (keyf i))) h"
      "unpublished t (slotf i)"
      using r3[of i] unfolding Probing by (simp_all add: thread_ok_def)
    have nl: "\<forall>b. \<not> holds_lock (pcs i) b" unfolding Probing by (simp add: holds_lock_def)
    have move: "race_inv pd keyf slotf cap (t, pcs(i := Probing (next_bucket (capacity t) h)))"
      if ne: "entries t h \<noteq> - 1"
    proof (rule race_inv_move[OF inv' nl])
      show "\<forall>b. \<not> holds_lock (Probing (next_bucket (capacity t) h)) b"
        by (simp add: holds_lock_def)
      show "thread_ok pd t (keyf i) (slotf i) (Probing (next_bucket (capacity t) h))"
        using next_in_table[OF oki(1)] nonempty_path_next[OF oki(2) ne] oki(3)
        by (simp add: thread_ok_def)
    qed
    consider (locked) "entries t h = - 2" | (empty) "entries t h = - 1"
      | (match) "entries t h \<noteq> - 2" "entries t h \<noteq> - 1" "key_match pd (keys t) (entries t h) (keyf i)"
      | (other) "entries t h \<noteq> - 2" "entries t h \<noteq> - 1" "\<not> key_match pd (keys t) (entries t h) (keyf i)"
      by blast
    then show ?thesis
    proof cases
      case locked
      then have "race_step pd keyf slotf st i = (t, pcs(i := Probing (next_bucket (capacity t) h)))"
        by (simp add: race_step_def st Probing)
      then show ?thesis using move locked by simp
    next
      case empty
      then have "race_step pd keyf slotf st i
          = (t\<lparr>entries := (entries t)(h := - 2)\<rparr>, pcs(i := Locked h))"
        by (simp add: race_step_def st Probing)
      then show ?thesis using race_inv_lock[OF inv' slots Probing empty] by simp
    next
      case match
      have s: "race_step pd keyf slotf st i = (t, pcs(i := Returned h))"
        using match by (simp add: race_step_def st Probing)
      have occ: "0 \<le> entries t h" using r2[OF oki(1)] match(1,2) by blast
      have "slot_key pd t (entries t h) = keyf i"
        using slot_key_eq_iff[of "keyf i" pd t "entries t h"] len match(3) by blast
      then have "thread_ok pd t (keyf i) (slotf i) (Returned h)"
        using oki(1) occ by (simp add: thread_ok_def)
      then have "race_inv pd keyf slotf cap (t, pcs(i := Returned h))"
        by (intro race_inv_move[OF inv' nl]) (simp_all add: holds_lock_def)
      then show ?thesis unfolding s .
    next
      case other
      then have "race_step pd keyf slotf st i = (t, pcs(i := Probing (next_bucket (capacity t) h)))"
        by (simp add: race_step_def st Probing)
      then show ?thesis using move other(2) by simp
    qed
  next
    case (Locked h)
    have "race_step pd keyf slotf st i
        = (t\<lparr>keys := write_key pd (keys t) (slotf i) (keyf i)\<rparr>, pcs(i := Written h))"
      by (simp add: race_step_def st Locked)
    then show ?thesis using race_inv_write[OF inv' inj len Locked] by simp
  next
    case (Written h)
    have "race_step pd keyf slotf st i
        = (t\<lparr>entries := (entries t)(h := slotf i)\<rparr>, pcs(i := Returned h))"
      by (simp add: race_step_def st Written)
    then show ?thesis using race_inv_publish[OF inv' inj slots Written] by simp
  next
    case (Returned h)
    have "pcs(i := Returned h) = pcs" using Returned by (simp add: fun_upd_idem)
    then have "race_step pd keyf slotf st i = st"
      by (simp add: race_step_def st Returned)
    then show ?thesis using inv by simp
  qed
qed

lemma race_inv_run:
  assumes inv: "race_inv pd keyf slotf cap st"
    and inj: "inj slotf" and slots: "\<forall>i. 0 \<le> slotf i" and len: "\<forall>i. length (keyf i) = pd"
  shows "race_inv pd keyf slotf cap (race pd keyf slotf sched st)"
  using inv unfolding race_def
proof (induction sched arbitrary: st)
  case Nil
  then show ?case by simp
next
  case (Cons i sched)
  have "race_inv pd keyf slotf cap (race_step pd keyf slotf st i)"
    by (rule race_step_inv[OF Cons.prems inj slots len])
  from Cons.IH[OF this] show ?case by simp
qed

lemma race_step_other:
  "i' \<noteq> i \<Longrightarrow> snd (race_step pd keyf slotf st i) i' = snd st i'"
  by (simp add: race_step_def split: prod.splits)

lemma race_untouched:
  assumes "i \<notin> set sched"
  shows "snd (race pd keyf slotf sched st) i = snd st i"
  using assms unfolding race_def
proof (induction sched arbitrary: st)
  case Nil
  show ?case by simp
next
  case (Cons j sched)
  have "snd (foldl (race_step pd keyf slotf) (race_step pd keyf slotf st j) sched) i
      = snd (race_step pd keyf slotf st j) i"
    using Cons.IH[of "race_step pd keyf slotf st j"] Cons.prems by simp
  also have "\<dots> = snd st i" using Cons.prems by (intro race_step_other) auto
  finally show ?case by simp
qed

lemma race_inv_start:
  assumes cap: "0 < capacity t" "2 * capacity t < 2 ^ 31"
    and st: "settled pd t"
    and fresh: "\<forall>i b. in_table t b \<longrightarrow> entries t b \<noteq> slotf i"
  shows "race_inv pd keyf slotf (capacity t) (t, insert_start pd t keyf)"
  unfolding race_inv_unfold
proof (intro conjI allI impI)
  show "capacity t = capacity t" ..
next
  fix b assume "in_table t b"
  then show "entries t b = - 1 \<or> (entries t b = - 2 \<and> (\<exists>i. holds_lock (insert_start pd t keyf i) b))
           \<or> (0 \<le> entries t b \<and> reachable pd t b)"
    using st unfolding settled_def by blast
next
  fix i
  have "in_table t (modHash (capacity t) (hash pd (keyf i)))"
    using modHash_in_table[OF cap] by (simp add: in_table_def)
  then show "thread_ok pd t (keyf i) (slotf i) (insert_start pd t keyf i)"
    using fresh by (simp add: thread_ok_def insert_start_def nonempty_path_refl unpublished_def)
next
  fix i i' b assume "holds_lock (insert_start pd t keyf i) b \<and> holds_lock (insert_start pd t keyf i') b"
  then show "i = i'" by (simp add: insert_start_def holds_lock_def)
qed

lemma race_settled:
  assumes cap: "0 < capacity t" "2 * capacity t < 2 ^ 31"
    and st: "settled pd t"
    and inj: "inj slotf" and slots: "\<forall>i. 0 \<le> slotf i" and len: "\<forall>i. length (keyf i) = pd"
    and fresh: "\<forall>i b. in_table t b \<longrightarrow> entries t b \<noteq> slotf i"
    and run: "race pd keyf slotf sched (t, insert_start pd t keyf) = (tr, pcs)"
    and fin: "\<forall>i\<in>set sched. \<exists>h. pcs i = Returned h"
  shows "capacity tr = capacity t" "settled pd tr"
    and "\<forall>i h. pcs i = Returned h \<longrightarrow>
           in_table tr h \<and> 0 \<le> entries tr h \<and> slot_key pd tr (entries tr h) = keyf i"
proof -
  have inv: "race_inv pd keyf slotf (capacity t) (tr, pcs)"
    using race_inv_run[OF race_inv_start[OF cap st fresh] inj slots len, of sched] run by simp
  have r2: "\<And>b. in_table tr b \<Longrightarrow> entries tr b = - 1
           \<or> (entries tr b = - 2 \<and> (\<exists>i. holds_lock (pcs i) b))
           \<or> (0 \<le> entries tr b \<and> reachable pd tr b)"
    and r3: "\<And>i. thread_ok pd tr (keyf i) (slotf i) (pcs i)"
    using inv unfolding race_inv_unfold by blast+
  show "capacity tr = capacity t" using inv unfolding race_inv_unfold by blast
  have nolock: "\<not> holds_lock (pcs i) b" for i b
  proof (cases "i \<in> set sched")
    case True
    then obtain h where "pcs i = Returned h" using fin by blast
    then show ?thesis by (simp add: holds_lock_def)
  next
    case False
    have "pcs i = insert_start pd t keyf i"
      using race_untouched[OF False, of pd keyf slotf "(t, insert_start pd t keyf)"] run by simp
    then show ?thesis by (simp add: holds_lock_def insert_start_def)
  qed
  show "settled pd tr"
    unfolding settled_def
  proof (intro allI impI)
    fix b assume "in_table tr b"
    from r2[OF this] show "entries tr b = - 1 \<or> (0 \<le> entries tr b \<and> reachable pd tr b)"
      using nolock by blast
  qed
  show "\<forall>i h. pcs i = Returned h \<longrightarrow>
           in_table tr h \<and> 0 \<le> entries tr h \<and> slot_key pd tr (entries tr h) = keyf i"
  proof (intro allI impI)
    fix i h assume "pcs i = Returned h"
    then show "in_table tr h \<and> 0 \<le> entries tr h \<and> slot_key pd tr (entries tr h) = keyf i"
      using r3[of i] by (simp add: thread_ok_def)
  qed
qed

lemma race_then_coalesce:
  assumes cap: "0 < capacity t" "2 * capacity t < 2 ^ 31"
    and st: "settled pd t"
    and inj: "inj slotf" and slots: "\<forall>i. 0 \<le> slotf i" and len: "\<forall>i. length (keyf i) = pd"
    and fresh: "\<forall>i b. in_table t b \<longrightarrow> entries t b \<noteq> slotf i"
    and run: "race pd keyf slotf sched (t, insert_start pd t keyf) = (tr, pcs)"
    and fin: "\<forall>i\<in>set sched. \<exists>h. pcs i = Returned h"
  shows "\<exists>tc. cleanHashTable pd (nat (2 * capacity tr)) tr = Some tc
      \<and> (\<forall>i h. pcs i = Returned h \<longrightarrow>
            in_table tr h \<and> 0 \<le> entries tc h \<and> key_match pd (keys tc) (entries tc h) (keyf i)
            \<and> retrieve pd tc (keyf i) = Some (entries tc h))"
proof -
  note rs = race_settled[OF cap st inj slots len fresh run fin]
  have cap': "0 < capacity tr" "2 * capacity tr < 2 ^ 31" using cap unfolding rs(1) by blast+
  from clean_settled[OF cap' rs(2)] obtain tc where
    c: "cleanHashTable pd (nat (2 * capacity tr)) tr = Some tc"
    and k: "keys tc = keys tr"
    and m: "\<forall>b. in_table tr b \<and> 0 \<le> entries tr b \<longrightarrow>
          0 \<le> entries tc b \<and> slot_key pd tc (entries tc b) = slot_key pd tr (entries tr b)
          \<and> retrieve pd tc (slot_key pd tr (entries tr b)) = Some (entries tc b)"
    by blast
  have "in_table tr h \<and> 0 \<le> entries tc h \<and> key_match pd (keys tc) (entries tc h) (keyf i)
            \<and> retrieve pd tc (keyf i) = Some (entries tc h)" if r: "pcs i = Returned h" for i h
  proof -
    have o: "in_table tr h" "0 \<le> entries tr h" "slot_key pd tr (entries tr h) = keyf i"
      using rs(3)[rule_format, OF r] by simp_all
    have "0 \<le> entries tc h \<and> slot_key pd tc (entries tc h) = slot_key pd tr (entries tr h)
          \<and> retrieve pd tc (slot_key pd tr (entries tr h)) = Some (entries tc h)"
      using m[rule_format, of h] o(1,2) by simp
    then have a: "0 \<le> entries tc h" "slot_key pd tc (entries tc h) = keyf i"
      "retrieve pd tc (keyf i) = Some (entries tc h)"
      unfolding o(3) by simp_all
    have "key_match pd (keys tc) (entries tc h) (keyf i)"
      using slot_key_eq_iff[of "keyf i" pd tc "entries tc h"] len a(2) by blast
    then show ?thesis using o(1) a by blast
  qed
  then show ?thesis using c by blast
qed

text \<open>Run alone, the steps of one thread are the loop of \<open>insert\<close>.\<close>

lemma insert_steps_walk:
  assumes "\<forall>j<k. \<not> insert_stops pd t key (probe (capacity t) h j)"
  shows "(insert_step pd key slot ^^ k) (t, Probing h) = (t, Probing (probe (capacity t) h k))"
  using assms
proof (induction k)
  case 0
  show ?case by (simp add: probe_0)
next
  case (Suc k)
  have ih: "(insert_step pd key slot ^^ k) (t, Probing h) = (t, Probing (probe (capacity t) h k))"
    using Suc by simp
  have "\<not> insert_stops pd t key (probe (capacity t) h k)" using Suc.prems by simp
  then have "insert_step pd key slot (t, Probing (probe (capacity t) h k))
      = (t, Probing (next_bucket (capacity t) (probe (capacity t) h k)))"
    by (auto simp: insert_stops_def)
  then show ?case by (simp add: ih probe_Suc_next)
qed

lemma insert_loop_steps:
  assumes "insert_loop pd t key slot h = Some (t', h')"
  shows "\<exists>k. (insert_step pd key slot ^^ k) (t, Probing h) = (t', Returned h')"
proof -
  from insert_loop_Some_stops[OF assms] obtain k where
    "insert_stops pd t key (probe (capacity t) h k)" by blast
  from first_stop[of "\<lambda>k. insert_stops pd t key (probe (capacity t) h k)", OF this] obtain k0 where
    k0: "insert_stops pd t key (probe (capacity t) h k0)"
    "\<forall>j<k0. \<not> insert_stops pd t key (probe (capacity t) h j)"
    by blast
  define b where "b = probe (capacity t) h k0"
  note w = insert_loop_walk[OF k0(2,1), of slot, folded b_def]
  have s0: "(insert_step pd key slot ^^ k0) (t, Probing h) = (t, Probing b)"
    unfolding b_def by (rule insert_steps_walk[OF k0(2)])
  show ?thesis
  proof (cases "entries t b = - 1")
    case True
    then have r: "t' = t\<lparr>keys := write_key pd (keys t) slot key, entries := (entries t)(b := slot)\<rparr>"
      "h' = b"
      using w assms by simp_all
    have "(insert_step pd key slot ^^ (3 + k0)) (t, Probing h)
        = (insert_step pd key slot ^^ 3) (t, Probing b)"
      unfolding funpow_add o_apply s0 ..
    also have "\<dots> = (t', Returned h')"
      using True by (simp add: r eval_nat_numeral)
    finally show ?thesis by blast
  next
    case False
    then have r: "t' = t" "h' = b" using w assms by simp_all
    have "entries t b \<noteq> - 2" "key_match pd (keys t) (entries t b) key"
      using k0(1) False unfolding b_def[symmetric] insert_stops_def by blast+
    then have "insert_step pd key slot (t, Probing b) = (t', Returned h')"
      using False by (simp add: r)
    then have "(insert_step pd key slot ^^ Suc k0) (t, Probing h) = (t', Returned h')"
      by (simp add: s0)
    then show ?thesis by blast
  qed
qed

lemma settled_new: "settled pd (newHashTable c)"
  by (simp add: settled_def newHashTable_def)

lemma lost_race_run:
  "snd lost_race 0 = Returned 3" "snd lost_race 1 = Returned 0"
  "entries (fst lost_race) 3 = 0" "entries (fst lost_race) 0 = 1"
  "capacity (fst lost_race) = 2"
  "keys (fst lost_race) 0 = 1" "keys (fst lost_race) 1 = 1"
  by (simp_all add: lost_race_def race_def race_schedule_def race_step_def insert_start_def
      newHashTable_def hash_1 modHash_def next_bucket_def write_key_def)

lemma lost_race_retrieve: "retrieve 1 (fst lost_race) [1] = Some 0"
  by (simp add: retrieve_def retrieve_loop.simps hash_1 modHash_def key_match_def lost_race_run)

text \<open>
  Claim C1, amended: what \<open>retrieve\<close> returns for an inserted key is the slot stored in
  the bucket whose index \<open>insert\<close> returned (\<open>entries[h]\<close>), not the index \<open>h\<close>; the
  rest of the claim stands. In a sequential execution (no bucket locked), after
  \<open>insert key slot\<close> has returned \<open>h\<close>, an immediate \<open>retrieve\<close> with the same key
  returns \<open>entries[h]\<close>, which is a slot whose stored key is the key. In a racy
  execution, for every schedule of the steps of the threads on a table left by earlier
  inserts, once the threads of the schedule have returned and the coalescing pass
  (\<open>cleanHashTable\<close> over all buckets) has run, the pass returns and \<open>retrieve\<close> with the
  key of any thread returns \<open>entries[h]\<close> for the index \<open>h\<close> that the thread's insert
  returned, again a slot whose stored key is the key.
\<close>

theorem insert_then_retrieve:
  assumes "0 < capacity t" and "2 * capacity t < 2 ^ 31"
  shows "((\<forall>b. in_table t b \<longrightarrow> - 1 \<le> entries t b) \<and> 0 \<le> slot
          \<and> insert_ht pd t key slot = Some (t', h)
        \<longrightarrow> in_table t h \<and> 0 \<le> entries t' h \<and> key_match pd (keys t') (entries t' h) key
            \<and> retrieve pd t' key = Some (entries t' h))
     \<and> (settled pd t \<and> inj slotf \<and> (\<forall>i. 0 \<le> slotf i) \<and> (\<forall>i. length (keyf i) = pd)
          \<and> (\<forall>i b. in_table t b \<longrightarrow> entries t b \<noteq> slotf i)
          \<and> race pd keyf slotf sched (t, insert_start pd t keyf) = (tr, pcs)
          \<and> (\<forall>i\<in>set sched. \<exists>h. pcs i = Returned h)
        \<longrightarrow> (\<exists>tc. cleanHashTable pd (nat (2 * capacity tr)) tr = Some tc
              \<and> (\<forall>i h. pcs i = Returned h \<longrightarrow>
                    in_table tr h \<and> 0 \<le> entries tc h
                    \<and> key_match pd (keys tc) (entries tc h) (keyf i)
                    \<and> retrieve pd tc (keyf i) = Some (entries tc h))))"
proof (rule conjI; rule impI)
  assume "(\<forall>b. in_table t b \<longrightarrow> - 1 \<le> entries t b) \<and> 0 \<le> slot
          \<and> insert_ht pd t key slot = Some (t', h)"
  then have a: "\<forall>b. in_table t b \<longrightarrow> - 1 \<le> entries t b" "0 \<le> slot"
    "insert_ht pd t key slot = Some (t', h)" by blast+
  show "in_table t h \<and> 0 \<le> entries t' h \<and> key_match pd (keys t') (entries t' h) key
            \<and> retrieve pd t' key = Some (entries t' h)"
    by (rule insert_retrieve_aux[OF assms a])
next
  assume "settled pd t \<and> inj slotf \<and> (\<forall>i. 0 \<le> slotf i) \<and> (\<forall>i. length (keyf i) = pd)
          \<and> (\<forall>i b. in_table t b \<longrightarrow> entries t b \<noteq> slotf i)
          \<and> race pd keyf slotf sched (t, insert_start pd t keyf) = (tr, pcs)
          \<and> (\<forall>i\<in>set sched. \<exists>h. pcs i = Returned h)"
  then have a: "settled pd t" "inj slotf" "\<forall>i. 0 \<le> slotf i" "\<forall>i. length (keyf i) = pd"
    "\<forall>i b. in_table t b \<longrightarrow> entries t b \<noteq> slotf i"
    "race pd keyf slotf sched (t, insert_start pd t keyf) = (tr, pcs)"
    "\<forall>i\<in>set sched. \<exists>h. pcs i = Returned h"
    by blast+
  show "\<exists>tc. cleanHashTable pd (nat (2 * capacity tr)) tr = Some tc
              \<and> (\<forall>i h. pcs i = Returned h \<longrightarrow>
                    in_table tr h \<and> 0 \<le> entries tc h
                    \<and> key_match pd (keys tc) (entries tc h) (keyf i)
                    \<and> retrieve pd tc (keyf i) = Some (entries tc h))"
    by (rule race_then_coalesce[OF assms a])
qed

theorem insert_then_retrieve_witness:
  "insert_ht 1 (newHashTable 2) [1] 0 = Some (table_one_key, 3)
   \<and> retrieve 1 table_one_key [1] = Some (entries table_one_key 3)
   \<and> snd lost_race 0 = Returned 3 \<and> snd lost_race 1 = Returned 0
   \<and> entries (fst lost_race) 3 = 0 \<and> entries (fst lost_race) 0 = 1
   \<and> retrieve 1 (fst lost_race) [1] = Some 0
   \<and> (\<exists>tc. cleanHashTable 1 (nat (2 * capacity (fst lost_race))) (fst lost_race) = Some tc
        \<and> retrieve 1 tc [1] = Some (entries tc 3)
        \<and> retrieve 1 tc [1] = Some (entries tc 0))"
proof -
  have c: "0 < capacity (newHashTable 2)" "2 * capacity (newHashTable 2) < 2 ^ 31"
    by (simp_all add: newHashTable_def)
  note t = insert_then_retrieve[OF c, of 0 1 "[1]" table_one_key 3 int "\<lambda>_. [1]" race_schedule
      "fst lost_race" "snd lost_race"]
  have s: "(\<forall>b. in_table (newHashTable 2) b \<longrightarrow> - 1 \<le> entries (newHashTable 2) b) \<and> (0::int) \<le> 0
          \<and> insert_ht 1 (newHashTable 2) [1] 0 = Some (table_one_key, 3)"
    using insert_one_key by (simp add: newHashTable_def)
  have seq: "retrieve 1 table_one_key [1] = Some (entries table_one_key 3)"
    using t[THEN conjunct1] s by blast
  have fin: "\<forall>i\<in>set race_schedule. \<exists>h. snd lost_race i = Returned h"
    using lost_race_run(1,2) by (simp add: race_schedule_def)
  have r: "settled 1 (newHashTable 2) \<and> inj int \<and> (\<forall>i. 0 \<le> int i) \<and> (\<forall>i. length ((\<lambda>_. [1::short]) i) = 1)
          \<and> (\<forall>i b. in_table (newHashTable 2) b \<longrightarrow> entries (newHashTable 2) b \<noteq> int i)
          \<and> race 1 (\<lambda>_. [1]) int race_schedule (newHashTable 2, insert_start 1 (newHashTable 2) (\<lambda>_. [1]))
              = (fst lost_race, snd lost_race)
          \<and> (\<forall>i\<in>set race_schedule. \<exists>h. snd lost_race i = Returned h)"
    using fin settled_new by (simp add: lost_race_def newHashTable_def)
  from t[THEN conjunct2] r obtain tc where
    tc: "cleanHashTable 1 (nat (2 * capacity (fst lost_race))) (fst lost_race) = Some tc"
    and all: "\<forall>i h. snd lost_race i = Returned h \<longrightarrow>
                    in_table (fst lost_race) h \<and> 0 \<le> entries tc h
                    \<and> key_match 1 (keys tc) (entries tc h) ((\<lambda>_. [1]) i)
                    \<and> retrieve 1 tc ((\<lambda>_. [1]) i) = Some (entries tc h)"
    by blast
  have "retrieve 1 tc [1] = Some (entries tc 3)" using all lost_race_run(1) by blast
  moreover have "retrieve 1 tc [1] = Some (entries tc 0)" using all lost_race_run(2) by blast
  ultimately show ?thesis
    using insert_one_key seq lost_race_run lost_race_retrieve tc by blast
qed

end
